theory Spec2Isabelle
  imports Main
begin

section \<open>Go strings, runes and UTF-8\<close>

text \<open>
  A Go \<^verbatim>\<open>string\<close> and a \<^verbatim>\<open>[]byte\<close> are byte sequences: \<^typ>\<open>string\<close>, a list of
  8-bit characters. A \<^verbatim>\<open>rune\<close> is a code point; every rune the program handles comes
  out of the decoder or out of a literal, so it is a natural number. Go's \<^verbatim>\<open>int\<close>
  (\<^verbatim>\<open>Limit\<close>, \<^verbatim>\<open>lineLen\<close>, buffer lengths) is \<^typ>\<open>int\<close>: the values are bounded by
  the length of the input, far from 64-bit overflow.
\<close>

type_synonym rune = nat

definition RuneError :: rune where
  "RuneError = 0xFFFD"

definition cont :: "nat \<Rightarrow> bool" where
  "cont b = (0x80 \<le> b \<and> b \<le> 0xBF)"

text \<open>
  \<^verbatim>\<open>utf8.DecodeRuneInString\<close> on the bytes of the string (as numbers): the rune and the
  number of bytes it takes. An invalid or truncated encoding is \<^verbatim>\<open>RuneError\<close> of width
  1. The accept ranges of the second byte exclude overlong forms, surrogates and code
  points beyond U+10FFFF.
\<close>

fun decodeBytes :: "nat list \<Rightarrow> rune \<times> nat" where
  "decodeBytes [] = (RuneError, 0)"
| "decodeBytes (s0 # r) =
     (if s0 < 0x80 then (s0, 1)
      else if s0 < 0xC2 \<or> 0xF4 < s0 then (RuneError, 1)
      else
        (let sz = (if s0 < 0xE0 then 2 else if s0 < 0xF0 then 3 else 4 :: nat);
             lo = (if s0 = 0xE0 then 0xA0 else if s0 = 0xF0 then 0x90 else 0x80 :: nat);
             hi = (if s0 = 0xED then 0x9F else if s0 = 0xF4 then 0x8F else 0xBF :: nat)
         in if Suc (length r) < sz then (RuneError, 1)
            else
              (case r of
                 [] \<Rightarrow> (RuneError, 1)
               | s1 # r1 \<Rightarrow>
                   if s1 < lo \<or> hi < s1 then (RuneError, 1)
                   else if sz \<le> 2 then ((s0 mod 0x20) * 0x40 + s1 mod 0x40, 2)
                   else
                     (case r1 of
                        [] \<Rightarrow> (RuneError, 1)
                      | s2 # r2 \<Rightarrow>
                          if \<not> cont s2 then (RuneError, 1)
                          else if sz \<le> 3 then
                            ((s0 mod 0x10) * 0x1000 + (s1 mod 0x40) * 0x40 + s2 mod 0x40, 3)
                          else
                            (case r2 of
                               [] \<Rightarrow> (RuneError, 1)
                             | s3 # r3 \<Rightarrow>
                                 if \<not> cont s3 then (RuneError, 1)
                                 else
                                   ((s0 mod 0x08) * 0x40000 + (s1 mod 0x40) * 0x1000
                                      + (s2 mod 0x40) * 0x40 + s3 mod 0x40, 4))))))"

definition DecodeRuneInString :: "string \<Rightarrow> rune \<times> nat" where
  "DecodeRuneInString s = decodeBytes (map of_char s)"

text \<open>
  \<^verbatim>\<open>for _, c := range s\<close>: the runes of the string, one \<^verbatim>\<open>RuneError\<close> for each byte
  that starts no valid encoding.
\<close>

fun rangeBytes :: "nat list \<Rightarrow> rune list" where
  "rangeBytes [] = []"
| "rangeBytes (b # bs) =
     (case decodeBytes (b # bs) of (c, n) \<Rightarrow> c # rangeBytes (drop (n - 1) bs))"

definition runes :: "string \<Rightarrow> rune list" where
  "runes s = rangeBytes (map of_char s)"

text \<open>
  \<^verbatim>\<open>WriteRune\<close> of \<^verbatim>\<open>bytes.Buffer\<close>: the UTF-8 encoding of the rune, the encoding
  of \<^verbatim>\<open>RuneError\<close> for a surrogate or a value beyond U+10FFFF.
\<close>

definition encodeBytes :: "rune \<Rightarrow> nat list" where
  "encodeBytes r =
     (if r < 0x80 then [r]
      else if r \<le> 0x7FF then [0xC0 + r div 0x40, 0x80 + r mod 0x40]
      else if 0x10FFFF < r \<or> (0xD800 \<le> r \<and> r \<le> 0xDFFF) then [0xEF, 0xBF, 0xBD]
      else if r \<le> 0xFFFF then
        [0xE0 + r div 0x1000, 0x80 + (r div 0x40) mod 0x40, 0x80 + r mod 0x40]
      else
        [0xF0 + r div 0x40000, 0x80 + (r div 0x1000) mod 0x40,
         0x80 + (r div 0x40) mod 0x40, 0x80 + r mod 0x40])"

definition encodeRune :: "rune \<Rightarrow> string" where
  "encodeRune r = map char_of (encodeBytes r)"

text \<open>\<^verbatim>\<open>unicode.IsSpace\<close>: the Latin-1 spaces and the White_Space ranges beyond.\<close>

definition IsSpace :: "rune \<Rightarrow> bool" where
  "IsSpace r =
     (if r \<le> 0xFF then r \<in> {0x09, 0x0A, 0x0B, 0x0C, 0x0D, 0x20, 0x85, 0xA0}
      else r = 0x1680 \<or> (0x2000 \<le> r \<and> r \<le> 0x200A) \<or> r = 0x2028 \<or> r = 0x2029
           \<or> r = 0x202F \<or> r = 0x205F \<or> r = 0x3000)"

text \<open>
  \<^verbatim>\<open>strings.Repeat\<close> panics on a negative count.
\<close>

datatype error = NegativeRepeatCount | NoReturn

definition Repeat :: "string \<Rightarrow> int \<Rightarrow> error + string" where
  "Repeat s count =
     (if count < 0 then Inl NegativeRepeatCount else Inr (concat (replicate (nat count) s)))"

definition andThen :: "error + 'a \<Rightarrow> ('a \<Rightarrow> error + 'b) \<Rightarrow> error + 'b" where
  "andThen m f = (case m of Inl e \<Rightarrow> Inl e | Inr x \<Rightarrow> f x)"

text \<open>
  \<^verbatim>\<open>strings.Replace(s, old, new, -1)\<close> for a one-byte \<^verbatim>\<open>old\<close>, and
  \<^verbatim>\<open>strings.TrimSpace\<close>: the string without its leading and trailing white space,
  rune by rune.
\<close>

definition ReplaceByte :: "string \<Rightarrow> char \<Rightarrow> string \<Rightarrow> string" where
  "ReplaceByte s old new = concat (map (\<lambda>b. if b = old then new else [b]) s)"

fun segments :: "nat list \<Rightarrow> (rune \<times> nat list) list" where
  "segments [] = []"
| "segments (b # bs) =
     (case decodeBytes (b # bs) of
        (c, n) \<Rightarrow> (c, b # take (n - 1) bs) # segments (drop (n - 1) bs))"

definition TrimSpace :: "string \<Rightarrow> string" where
  "TrimSpace s =
     map char_of (concat (map snd
       (rev (dropWhile (\<lambda>p. IsSpace (fst p))
         (rev (dropWhile (\<lambda>p. IsSpace (fst p)) (segments (map of_char s))))))))"

section \<open>Printable width\<close>

text \<open>
  Modelled from the spec: \<^verbatim>\<open>ansi.Buffer.PrintableRuneWidth\<close>, the printable width of a
  pending word, is code of the repository's ansi package, which is not among the
  sources. The spec gives it as a pure function that returns 0 for escape bytes and
  the per-character display width for everything else; an escape sequence runs from
  the escape introducer to the first terminator letter (the test of \<^verbatim>\<open>Write\<close>). The
  width of one rune, \<^verbatim>\<open>runewidth.RuneWidth\<close> of an external library, is the parameter
  \<open>rw\<close> throughout.
\<close>

definition IsTerminator :: "rune \<Rightarrow> bool" where
  "IsTerminator c = ((0x40 \<le> c \<and> c \<le> 0x5A) \<or> (0x61 \<le> c \<and> c \<le> 0x7A))"

fun printable :: "(rune \<Rightarrow> nat) \<Rightarrow> bool \<Rightarrow> rune list \<Rightarrow> nat" where
  "printable rw a [] = 0"
| "printable rw a (c # cs) =
     (if c = 0x1B then printable rw True cs
      else if a then printable rw (\<not> IsTerminator c) cs
      else rw c + printable rw False cs)"

definition PrintableRuneWidth :: "(rune \<Rightarrow> nat) \<Rightarrow> string \<Rightarrow> int" where
  "PrintableRuneWidth rw s = int (printable rw False (runes s))"

text \<open>
  The width function used where a statement is evaluated on concrete ASCII text: one
  column for a printable character, none for a control character, as the library has
  it there.
\<close>

definition cellWidth :: "rune \<Rightarrow> nat" where
  "cellWidth c = (if c < 0x20 \<or> (0x7F \<le> c \<and> c < 0xA0) then 0 else 1)"

section \<open>The word-wrapping writer\<close>

record WordWrap =
  Limit :: int
  Breakpoints :: "rune list"
  Newline :: "rune list"
  KeepNewlines :: bool
  HardWrap :: bool
  TabReplace :: string
  PreserveSpaces :: bool
  buf :: string
  space :: string
  word :: string
  lineLen :: int
  ansi :: bool
  wroteBegin :: bool
  lastAnsi :: string
  newArgument :: bool
  leadingZero :: bool

definition NewWriter :: "int \<Rightarrow> WordWrap" where
  "NewWriter limit =
     \<lparr> Limit = limit, Breakpoints = [0x2D], Newline = [0x0A], KeepNewlines = True,
       HardWrap = False, TabReplace = [], PreserveSpaces = False,
       buf = [], space = [], word = [], lineLen = 0, ansi = False, wroteBegin = False,
       lastAnsi = [], newArgument = False, leadingZero = False \<rparr>"

text \<open>
  The loop of \<^verbatim>\<open>addSpace\<close> writes one full line of spaces while \<open>length \<ge> Limit\<close>. It
  never exits when \<open>Limit = 0\<close>; not returning is \<open>None\<close>.
\<close>

partial_function (option) fullLines :: "int \<Rightarrow> int \<Rightarrow> string \<Rightarrow> (error + int \<times> string) option" where
  [code]: "fullLines limit len b =
     (if len \<ge> limit then
        (if limit < 0 then Some (Inl NegativeRepeatCount)
         else fullLines limit (len - limit) (b @ CHR 0x0A # replicate (nat limit) CHR '' ''))
      else Some (Inr (len, b)))"

definition addSpace :: "WordWrap \<Rightarrow> error + WordWrap" where
  "addSpace w =
     (if int (length (space w)) \<le> Limit w - lineLen w then
        Inr (w\<lparr>lineLen := lineLen w + int (length (space w)), buf := buf w @ space w,
               space := []\<rparr>)
      else
        (let len = int (length (space w)); first = Limit w - lineLen w in
         andThen (Repeat '' '' first) (\<lambda>sp.
           (case fullLines (Limit w) (len - first) (buf w @ sp) of
              None \<Rightarrow> Inl NoReturn
            | Some (Inl e) \<Rightarrow> Inl e
            | Some (Inr (len', b)) \<Rightarrow>
                Inr (w\<lparr>buf := (if len' > 0 then b @ CHR 0x0A # replicate (nat len') CHR '' ''
                               else b),
                       lineLen := len', space := []\<rparr>)))))"

definition addWord :: "(rune \<Rightarrow> nat) \<Rightarrow> WordWrap \<Rightarrow> error + WordWrap" where
  "addWord rw w =
     (if length (word w) > 0 then
        andThen (addSpace w) (\<lambda>w.
          Inr (w\<lparr>lineLen := lineLen w + PrintableRuneWidth rw (word w),
                 buf := buf w @ word w, word := []\<rparr>))
      else Inr w)"

definition addNewLine :: "WordWrap \<Rightarrow> error + WordWrap" where
  "addNewLine w =
     andThen (if PreserveSpaces w then addSpace w else Inr w) (\<lambda>w.
       Inr (w\<lparr>buf := buf w @ (if length (lastAnsi w) \<noteq> 0 then [CHR 0x1B, CHR ''['', CHR ''0'', CHR ''m''] else [])
                        @ [CHR 0x0A],
              lineLen := 0, space := [], wroteBegin := False\<rparr>))"

fun inGroup :: "rune list \<Rightarrow> rune \<Rightarrow> bool" where
  "inGroup [] c = False"
| "inGroup (v # a) c = (if v = c then True else inGroup a c)"

text \<open>
  The body of the loop of \<^verbatim>\<open>Write\<close> while inside an escape sequence (the branch
  \<^verbatim>\<open>else if w.ansi\<close>); \<^verbatim>\<open>continue\<close> returns the state as it is then.
\<close>

definition writeAnsi :: "WordWrap \<Rightarrow> rune \<Rightarrow> WordWrap" where
  "writeAnsi w c =
     (if c = 0x30 \<and> newArgument w then w\<lparr>leadingZero := True\<rparr>
      else
        (let w = w\<lparr>newArgument := False\<rparr>;
             w = (if inGroup [0x31, 0x32, 0x33, 0x34, 0x35, 0x36, 0x37, 0x38, 0x39] c
                  then w\<lparr>leadingZero := False\<rparr> else w);
             w = (if inGroup [0x5B, 0x3B] c then w\<lparr>newArgument := True\<rparr> else w)
         in if inGroup [0x5B, 0x3B] c \<and> leadingZero w then
              w\<lparr>lastAnsi := [CHR 0x1B, CHR ''[''], leadingZero := False,
                word := word w @ [CHR ''0'', CHR ''m'', CHR 0x1B, CHR ''['']\<rparr>
            else
              (let w = w\<lparr>lastAnsi := lastAnsi w @ encodeRune c\<rparr>;
                   w = (if IsTerminator c then
                          (if leadingZero w then
                             w\<lparr>word := word w @ [CHR ''0''], lastAnsi := [],
                               leadingZero := False\<rparr>
                           else w)\<lparr>ansi := False\<rparr>
                        else w)
               in w\<lparr>word := word w @ encodeRune c\<rparr>)))"

text \<open>One iteration of the loop of \<^verbatim>\<open>Write\<close>, on the rune \<open>c\<close>.\<close>

definition writeRune :: "(rune \<Rightarrow> nat) \<Rightarrow> WordWrap \<Rightarrow> rune \<Rightarrow> error + WordWrap" where
  "writeRune rw w c =
     andThen
       (if \<not> wroteBegin w \<and> \<not> ansi w \<and> length (lastAnsi w) \<noteq> 0
        then addWord rw (w\<lparr>buf := buf w @ lastAnsi w\<rparr>) else Inr w)
       (\<lambda>w.
          (let w = w\<lparr>wroteBegin := True\<rparr> in
           if c = 0x1B then
             Inr (w\<lparr>word := word w @ encodeRune c, lastAnsi := lastAnsi w @ encodeRune c,
                    ansi := True, newArgument := True\<rparr>)
           else if ansi w then Inr (writeAnsi w c)
           else if inGroup (Newline w) c then
             andThen
               (addWord rw
                 (if length (word w) = 0 then
                    (if lineLen w + int (length (space w)) > Limit w then w\<lparr>lineLen := 0\<rparr>
                     else w\<lparr>buf := buf w @ space w\<rparr>)\<lparr>space := []\<rparr>
                  else w))
               addNewLine
           else if IsSpace c then
             andThen (addWord rw w) (\<lambda>w. Inr (w\<lparr>space := space w @ encodeRune c\<rparr>))
           else if inGroup (Breakpoints w) c then
             andThen (addSpace w) (\<lambda>w.
               andThen (addWord rw w) (\<lambda>w. Inr (w\<lparr>buf := buf w @ encodeRune c\<rparr>)))
           else if HardWrap w \<and>
               lineLen w + PrintableRuneWidth rw (word w) + int (rw c) + int (length (space w))
                 = Limit w then
             addWord rw (w\<lparr>word := word w @ encodeRune c\<rparr>)
           else
             (let w = w\<lparr>word := word w @ encodeRune c\<rparr> in
              if lineLen w + int (length (space w)) + PrintableRuneWidth rw (word w) > Limit w
                 \<and> PrintableRuneWidth rw (word w) < Limit w
              then addNewLine w else Inr w)))"

fun writeRunes :: "(rune \<Rightarrow> nat) \<Rightarrow> WordWrap \<Rightarrow> rune list \<Rightarrow> error + WordWrap" where
  "writeRunes rw w [] = Inr w"
| "writeRunes rw w (c # cs) = andThen (writeRune rw w c) (\<lambda>w. writeRunes rw w cs)"

text \<open>
  \<^verbatim>\<open>Write\<close> returns the number of bytes taken, always \<^verbatim>\<open>len(b)\<close>, and a nil error;
  the model returns the writer after the call, or the panic.
\<close>

definition Write :: "(rune \<Rightarrow> nat) \<Rightarrow> WordWrap \<Rightarrow> string \<Rightarrow> error + WordWrap" where
  "Write rw w b =
     (if Limit w = 0 then Inr (w\<lparr>buf := buf w @ b\<rparr>)
      else
        (let s = b;
             s = (if \<not> KeepNewlines w then ReplaceByte (TrimSpace s) (CHR 0x0A) '' '' else s);
             s = (if HardWrap w then ReplaceByte s (CHR 0x09) (TabReplace w) else s)
         in writeRunes rw w (runes s)))"

definition Close :: "(rune \<Rightarrow> nat) \<Rightarrow> WordWrap \<Rightarrow> error + WordWrap" where
  "Close rw w = andThen (if PreserveSpaces w then addSpace w else Inr w) (addWord rw)"

definition Bytes :: "(rune \<Rightarrow> nat) \<Rightarrow> string \<Rightarrow> int \<Rightarrow> error + string" where
  "Bytes rw b limit =
     andThen (Write rw (NewWriter limit) b) (\<lambda>f. andThen (Close rw f) (\<lambda>f. Inr (buf f)))"


section \<open>Sessions and the lines of the output\<close>

text \<open>
  A session is any number of \<^verbatim>\<open>Write\<close> calls, one \<^verbatim>\<open>Close\<close>, then \<^verbatim>\<open>Bytes\<close> (the method,
  which returns \<^verbatim>\<open>buf\<close>).
\<close>

fun writeAll :: "(rune \<Rightarrow> nat) \<Rightarrow> WordWrap \<Rightarrow> string list \<Rightarrow> error + WordWrap" where
  "writeAll rw w [] = Inr w"
| "writeAll rw w (b # bs) = andThen (Write rw w b) (\<lambda>w. writeAll rw w bs)"

definition result :: "(rune \<Rightarrow> nat) \<Rightarrow> WordWrap \<Rightarrow> string list \<Rightarrow> error + string" where
  "result rw w bs = andThen (writeAll rw w bs) (\<lambda>w. andThen (Close rw w) (\<lambda>w. Inr (buf w)))"

text \<open>The bytes committed since the most recent line break.\<close>

definition lastLine :: "string \<Rightarrow> string" where
  "lastLine s = rev (takeWhile (\<lambda>c. c \<noteq> CHR 0x0A) (rev s))"


section \<open>Lines, words and widths of plain text\<close>

text \<open>
  The runes that have an encoding of their own: all but the surrogates and the values
  beyond U+10FFFF. \<open>enc\<close> is what a sequence of \<^verbatim>\<open>WriteRune\<close> calls leaves in a buffer.
\<close>

definition validRune :: "rune \<Rightarrow> bool" where
  "validRune c = (c < 0xD800 \<or> (0xDFFF < c \<and> c \<le> 0x10FFFF))"

definition enc :: "rune list \<Rightarrow> string" where
  "enc rs = concat (map encodeRune rs)"

definition utf8 :: "string \<Rightarrow> bool" where
  "utf8 s = (s = enc (runes s))"

text \<open>The pieces of a sequence between separators, \<^verbatim>\<open>strings.Split\<close>: never empty.\<close>

fun splitFrom :: "'a \<Rightarrow> 'a list \<Rightarrow> 'a list \<Rightarrow> 'a list list" where
  "splitFrom nl acc [] = [acc]"
| "splitFrom nl acc (c # cs) =
     (if c = nl then acc # splitFrom nl [] cs else splitFrom nl (acc @ [c]) cs)"

definition splitLines :: "string \<Rightarrow> string list" where
  "splitLines s = splitFrom (CHR 0x0A) [] s"

text \<open>
  The width of a run of runes, and the width of the widest word of a line: a word is a
  maximal run of runes that are not white space.
\<close>

definition width :: "(rune \<Rightarrow> nat) \<Rightarrow> rune list \<Rightarrow> nat" where
  "width rw rs = sum_list (map rw rs)"

fun maxWord :: "(rune \<Rightarrow> nat) \<Rightarrow> nat \<Rightarrow> rune list \<Rightarrow> nat" where
  "maxWord rw a [] = a"
| "maxWord rw a (c # cs) =
     (if IsSpace c then max a (maxWord rw 0 cs) else maxWord rw (a + rw c) cs)"

text \<open>
  The claim on the lines of the output as the specification states it: a line is at most
  \<open>limit\<close> columns wide, or it is one word with no white space and no breakpoint character
  in it.
\<close>

definition atomicLine :: "rune list \<Rightarrow> string \<Rightarrow> bool" where
  "atomicLine bp l = list_all (\<lambda>c. \<not> IsSpace c \<and> \<not> inGroup bp c) (runes l)"

definition lineFits :: "(rune \<Rightarrow> nat) \<Rightarrow> rune list \<Rightarrow> int \<Rightarrow> string \<Rightarrow> bool" where
  "lineFits rw bp limit l = (PrintableRuneWidth rw l \<le> limit \<or> atomicLine bp l)"

text \<open>
  What the code keeps to: a line is at most \<open>limit\<close> columns wide, or it holds a word of
  at least \<open>limit\<close> columns.
\<close>

definition lineWithin :: "(rune \<Rightarrow> nat) \<Rightarrow> int \<Rightarrow> string \<Rightarrow> bool" where
  "lineWithin rw limit l =
     (PrintableRuneWidth rw l \<le> limit \<or> limit \<le> int (maxWord rw 0 (runes l)))"

section \<open>Invariants of the line-filling engine on plain text\<close>

text \<open>
  The default settings, outside an escape sequence and with no style retained: the
  state of a writer from \<^verbatim>\<open>NewWriter\<close> on input without escape introducer.
\<close>

definition plainCfg :: "int \<Rightarrow> WordWrap \<Rightarrow> bool" where
  "plainCfg limit w =
     (Limit w = limit \<and> Breakpoints w = [0x2D] \<and> Newline w = [0x0A] \<and> \<not> HardWrap w
      \<and> \<not> PreserveSpaces w \<and> \<not> ansi w \<and> lastAnsi w = [])"

text \<open>
  No prefix of the word \<open>cs\<close>, appended rune by rune to a pending word of width \<open>a\<close>
  behind \<open>base\<close> committed columns and pending spaces, makes the default branch of
  \<^verbatim>\<open>Write\<close> break the line.
\<close>

fun noBreak :: "(rune \<Rightarrow> nat) \<Rightarrow> int \<Rightarrow> int \<Rightarrow> nat \<Rightarrow> rune list \<Rightarrow> bool" where
  "noBreak rw limit base a [] = True"
| "noBreak rw limit base a (c # cs) =
     (\<not> (base + int (a + rw c) > limit \<and> int (a + rw c) < limit)
      \<and> noBreak rw limit base (a + rw c) cs)"

definition okLine :: "(rune \<Rightarrow> nat) \<Rightarrow> int \<Rightarrow> rune list \<Rightarrow> bool" where
  "okLine rw limit l = (int (width rw l) \<le> limit \<or> limit \<le> int (maxWord rw 0 l))"

definition linesR :: "WordWrap \<Rightarrow> rune list list" where
  "linesR w = splitFrom 0x0A [] (runes (buf w))"

definition plainInv :: "(rune \<Rightarrow> nat) \<Rightarrow> int \<Rightarrow> WordWrap \<Rightarrow> bool" where
  "plainInv rw limit w =
     (plainCfg limit w \<and> utf8 (buf w) \<and> utf8 (space w) \<and> utf8 (word w)
      \<and> 0x1B \<notin> set (runes (buf w))
      \<and> (\<forall>c\<in>set (runes (space w)). IsSpace c \<and> c \<noteq> 0x0A)
      \<and> (\<forall>c\<in>set (runes (word w)). \<not> IsSpace c \<and> c \<noteq> 0x1B \<and> c \<noteq> 0x2D)
      \<and> 0 \<le> lineLen w
      \<and> noBreak rw limit (lineLen w + int (length (space w))) 0 (runes (word w))
      \<and> list_all (okLine rw limit) (butlast (linesR w))
      \<and> ((int (width rw (last (linesR w))) \<le> lineLen w \<and> lineLen w \<le> limit)
          \<or> limit \<le> int (maxWord rw 0 (last (linesR w)))))"

text \<open>
  What \<^verbatim>\<open>addSpace\<close> writes for a run of spaces that does not fit: the rest of the
  current line, \<open>q\<close> lines of \<open>l\<close> spaces, and a line of \<open>r\<close> spaces when \<open>r > 0\<close>.
\<close>

definition fill :: "'a \<Rightarrow> 'a \<Rightarrow> nat \<Rightarrow> nat \<Rightarrow> nat \<Rightarrow> nat \<Rightarrow> 'a list" where
  "fill nl sp first q l r =
     replicate first sp @ concat (replicate q (nl # replicate l sp))
       @ (if 0 < r then nl # replicate r sp else [])"


text \<open>
  The width function never takes a white-space rune for wider than its encoding is long
  (one column for the ASCII spaces): the bytes of the pending spaces, which the code
  counts, are at least their columns.
\<close>

definition spacesNarrow :: "(rune \<Rightarrow> nat) \<Rightarrow> bool" where
  "spacesNarrow rw = (\<forall>c. IsSpace c \<longrightarrow> rw c \<le> length (encodeRune c))"

section \<open>Wrapping the output again\<close>

text \<open>
  The writer \<open>u\<close> that has read the output committed by the writer \<open>w\<close> so far holds it
  all, committed or pending, nothing dropped and nothing inserted; its pending spaces fit
  its line; and its count of the line agrees with that of \<open>w\<close>, unless both have the
  line full.
\<close>

definition pending :: "(rune \<Rightarrow> nat) \<Rightarrow> WordWrap \<Rightarrow> int" where
  "pending rw u = lineLen u + int (length (space u)) + PrintableRuneWidth rw (word u)"

definition sync :: "(rune \<Rightarrow> nat) \<Rightarrow> int \<Rightarrow> WordWrap \<Rightarrow> WordWrap \<Rightarrow> bool" where
  "sync rw limit w u =
     (plainCfg limit u \<and> buf u @ space u @ word u = buf w
      \<and> (word u = [] \<longrightarrow> last (linesR w) = [])
      \<and> (last (linesR w) = [] \<longrightarrow> word u = [] \<and> space u = [] \<and> lineLen u = 0)
      \<and> int (length (space u)) \<le> limit - lineLen u
      \<and> (lineLen w = pending rw u \<or> (limit \<le> lineLen w \<and> limit \<le> pending rw u)))"

definition rewrapped :: "(rune \<Rightarrow> nat) \<Rightarrow> int \<Rightarrow> WordWrap \<Rightarrow> bool" where
  "rewrapped rw limit w =
     (\<exists>u. writeRunes rw (NewWriter limit) (runes (buf w)) = Inr u \<and> sync rw limit w u)"

definition lineZero :: "WordWrap \<Rightarrow> bool" where
  "lineZero w = (last (linesR w) = [] \<longrightarrow> lineLen w = 0)"

definition atStart :: "WordWrap \<Rightarrow> bool" where
  "atStart w = (space w = [] \<longrightarrow> last (linesR w) = [])"

definition stable :: "(rune \<Rightarrow> nat) \<Rightarrow> int \<Rightarrow> WordWrap \<Rightarrow> bool" where
  "stable rw limit w =
     (plainInv rw limit w \<and> atStart w \<and> lineZero w \<and> rewrapped rw limit w)"

section \<open>Invariants of the line-filling engine under any settings\<close>

text \<open>
  The runes that the loop of \<^verbatim>\<open>Write\<close> ranges over: those of the chunk, trimmed and with
  its newlines replaced when \<^verbatim>\<open>KeepNewlines\<close> is off, and with its tabs replaced when
  \<^verbatim>\<open>HardWrap\<close> is on.
\<close>

definition looped :: "WordWrap \<Rightarrow> string \<Rightarrow> rune list" where
  "looped w b =
     (let s = b;
          s = (if \<not> KeepNewlines w then ReplaceByte (TrimSpace s) (CHR 0x0A) '' '' else s);
          s = (if HardWrap w then ReplaceByte s (CHR 0x09) (TabReplace w) else s)
      in runes s)"

text \<open>
  A writer on which no method has been called yet: the settings are any, the buffers are
  empty and the counters zero, as in a struct literal or after \<^verbatim>\<open>NewWriter\<close> and
  assignments to the exported fields.
\<close>

definition unused :: "WordWrap \<Rightarrow> bool" where
  "unused w =
     (buf w = [] \<and> space w = [] \<and> word w = [] \<and> lineLen w = 0 \<and> \<not> ansi w
      \<and> \<not> wroteBegin w \<and> lastAnsi w = [])"

definition sameSettings :: "WordWrap \<Rightarrow> WordWrap \<Rightarrow> bool" where
  "sameSettings v w =
     (Limit w = Limit v \<and> Breakpoints w = Breakpoints v \<and> Newline w = Newline v
      \<and> KeepNewlines w = KeepNewlines v \<and> HardWrap w = HardWrap v
      \<and> TabReplace w = TabReplace v \<and> PreserveSpaces w = PreserveSpaces v)"

text \<open>
  Outside an escape sequence and with no style retained, with the settings of \<open>v\<close>: the
  buffers hold encoded runes, the pending spaces are white space, the pending word is
  not, and the lines that are complete are within the limit or hold a long word.
\<close>

definition framed :: "(rune \<Rightarrow> nat) \<Rightarrow> WordWrap \<Rightarrow> WordWrap \<Rightarrow> bool" where
  "framed rw v w =
     (sameSettings v w \<and> 0 < Limit w \<and> \<not> ansi w \<and> lastAnsi w = []
      \<and> utf8 (buf w) \<and> utf8 (space w) \<and> utf8 (word w)
      \<and> 0x1B \<notin> set (runes (buf w))
      \<and> (\<forall>c\<in>set (runes (space w)). IsSpace c)
      \<and> (\<forall>c\<in>set (runes (word w)). \<not> IsSpace c \<and> c \<noteq> 0x1B)
      \<and> list_all (okLine rw (Limit w)) (butlast (linesR w)))"

text \<open>
  The current line is no wider than \<^verbatim>\<open>lineLen\<close> says, which is within the limit, or it
  holds a long word.
\<close>

definition curFit :: "(rune \<Rightarrow> nat) \<Rightarrow> WordWrap \<Rightarrow> bool" where
  "curFit rw w =
     ((int (width rw (last (linesR w))) \<le> lineLen w \<and> lineLen w \<le> Limit w)
      \<or> Limit w \<le> int (maxWord rw 0 (last (linesR w))))"

text \<open>The pending word fits behind the line and the pending spaces, or it is long.\<close>

definition wordFit :: "(rune \<Rightarrow> nat) \<Rightarrow> WordWrap \<Rightarrow> bool" where
  "wordFit rw w =
     (word w \<noteq> [] \<longrightarrow>
        lineLen w + int (length (space w)) + int (width rw (runes (word w))) \<le> Limit w
        \<or> Limit w \<le> int (width rw (runes (word w))))"

definition lineInv :: "(rune \<Rightarrow> nat) \<Rightarrow> WordWrap \<Rightarrow> WordWrap \<Rightarrow> bool" where
  "lineInv rw v w = (framed rw v w \<and> 0 \<le> lineLen w \<and> curFit rw w \<and> wordFit rw w)"

text \<open>
  With \<^verbatim>\<open>PreserveSpaces\<close> off, \<^verbatim>\<open>addSpace\<close> runs only to flush a word; it does not panic
  when the line of a pending word is within the limit.
\<close>

definition calm :: "WordWrap \<Rightarrow> WordWrap \<Rightarrow> bool" where
  "calm v w =
     (sameSettings v w \<and> 0 < Limit w \<and> \<not> PreserveSpaces w \<and> \<not> ansi w \<and> lastAnsi w = []
      \<and> (word w \<noteq> [] \<longrightarrow> lineLen w \<le> Limit w))"

section \<open>Basic facts\<close>

lemma andThen_Inr [simp]: "andThen (Inr x) f = f x"
  by (simp add: andThen_def)

lemma andThen_Inl [simp]: "andThen (Inl e) f = Inl e"
  by (simp add: andThen_def)

lemma andThen_eq_Inr: "andThen m f = Inr y \<longleftrightarrow> (\<exists>x. m = Inr x \<and> f x = Inr y)"
  by (cases m) simp_all

lemma rangeBytes_ascii: "\<forall>b\<in>set bs. b < 0x80 \<Longrightarrow> rangeBytes bs = bs"
  by (induction bs) simp_all

lemma runes_ascii: "\<forall>c\<in>set s. (of_char c :: nat) < 0x80 \<Longrightarrow> runes s = map of_char s"
  by (simp add: runes_def rangeBytes_ascii)

lemma encodeRune_ascii: "c < 0x80 \<Longrightarrow> encodeRune c = [char_of c]"
  by (simp add: encodeRune_def encodeBytes_def)

lemma char_of_ascii [simp]:
  "char_of (0x1B::nat) = CHR 0x1B" "char_of (0x5B::nat) = CHR ''[''" "char_of (0x3B::nat) = CHR '';''"
  "char_of (0x6D::nat) = CHR ''m''" "char_of (0x30::nat) = CHR ''0''" "char_of (0x31::nat) = CHR ''1''"
  "char_of (0x32::nat) = CHR ''2''" "char_of (0x33::nat) = CHR ''3''"
  "char_of (0xEF::nat) = CHR 0xEF" "char_of (0xBF::nat) = CHR 0xBF" "char_of (0xBD::nat) = CHR 0xBD"
  by (simp_all add: char_of_eq_iff)

lemma wroteBegin_id: "wroteBegin w \<Longrightarrow> w\<lparr>wroteBegin := True\<rparr> = w"
  by (cases w) simp

subsection \<open>What the flush operations leave alone\<close>

lemma addSpace_Inr:
  "addSpace w = Inr w' \<Longrightarrow> w' = w\<lparr>buf := buf w', lineLen := lineLen w', space := []\<rparr>"
  unfolding addSpace_def Let_def andThen_def
  by (auto split: if_splits option.splits sum.splits prod.splits)

lemma addSpace_frame:
  assumes "addSpace w = Inr w'"
  shows "word w' = word w" "ansi w' = ansi w" "lastAnsi w' = lastAnsi w"
    "leadingZero w' = leadingZero w" "newArgument w' = newArgument w"
    "wroteBegin w' = wroteBegin w" "Limit w' = Limit w" "Breakpoints w' = Breakpoints w"
    "Newline w' = Newline w" "KeepNewlines w' = KeepNewlines w" "HardWrap w' = HardWrap w"
    "TabReplace w' = TabReplace w" "PreserveSpaces w' = PreserveSpaces w" "space w' = []"
  by (subst addSpace_Inr [OF assms], simp)+

lemma addWord_frame:
  assumes "addWord rw w = Inr w'"
  shows "ansi w' = ansi w" "lastAnsi w' = lastAnsi w"
    "leadingZero w' = leadingZero w" "newArgument w' = newArgument w"
    "wroteBegin w' = wroteBegin w" "Limit w' = Limit w" "Breakpoints w' = Breakpoints w"
    "Newline w' = Newline w" "KeepNewlines w' = KeepNewlines w" "HardWrap w' = HardWrap w"
    "TabReplace w' = TabReplace w" "PreserveSpaces w' = PreserveSpaces w" "word w' = []"
  using assms
  by (auto simp: addWord_def andThen_eq_Inr addSpace_frame split: if_splits)

subsection \<open>Steps of the loop\<close>

lemma writeRunes_append:
  "writeRunes rw w (xs @ ys) = andThen (writeRunes rw w xs) (\<lambda>w. writeRunes rw w ys)"
proof (induction xs arbitrary: w)
  case Nil
  show ?case by simp
next
  case (Cons x xs)
  show ?case by (cases "writeRune rw w x") (simp_all add: Cons.IH)
qed

lemma writeRune_ESC:
  assumes "writeRune rw w 0x1B = Inr w1"
  shows "ansi w1" "newArgument w1" "wroteBegin w1" "leadingZero w1 = leadingZero w"
  using assms
  by (auto simp: writeRune_def andThen_eq_Inr Let_def addWord_frame split: if_splits)

lemma writeRune_ansi:
  "ansi w \<Longrightarrow> c \<noteq> 0x1B \<Longrightarrow> writeRune rw w c = Inr (writeAnsi (w\<lparr>wroteBegin := True\<rparr>) c)"
  by (simp add: writeRune_def)

lemma writeRune_plain:
  assumes "wroteBegin v \<or> ansi v \<or> lastAnsi v = []" and "c \<noteq> 0x1B" and "\<not> ansi v"
    and "\<not> inGroup (Newline v) c" and "\<not> IsSpace c" and "\<not> inGroup (Breakpoints v) c"
    and "\<not> HardWrap v"
  shows "writeRune rw v c =
    (let w = v\<lparr>wroteBegin := True, word := word v @ encodeRune c\<rparr> in
     if lineLen w + int (length (space w)) + PrintableRuneWidth rw (word w) > Limit w
        \<and> PrintableRuneWidth rw (word w) < Limit w
     then addNewLine w else Inr w)"
  using assms by (auto simp: writeRune_def Let_def)

lemma NewWriter_sel [simp]:
  "Limit (NewWriter limit) = limit" "Breakpoints (NewWriter limit) = [0x2D]"
  "Newline (NewWriter limit) = [0x0A]" "KeepNewlines (NewWriter limit)"
  "\<not> HardWrap (NewWriter limit)" "TabReplace (NewWriter limit) = []"
  "\<not> PreserveSpaces (NewWriter limit)" "buf (NewWriter limit) = []"
  "space (NewWriter limit) = []" "word (NewWriter limit) = []" "lineLen (NewWriter limit) = 0"
  "\<not> ansi (NewWriter limit)" "\<not> wroteBegin (NewWriter limit)"
  "lastAnsi (NewWriter limit) = []" "\<not> newArgument (NewWriter limit)"
  "\<not> leadingZero (NewWriter limit)"
  by (simp_all add: NewWriter_def)

lemma writeRune_first_ESC:
  "writeRune rw (NewWriter limit) 0x1B =
     Inr ((NewWriter limit)\<lparr>wroteBegin := True, word := [CHR 0x1B], lastAnsi := [CHR 0x1B],
       ansi := True, newArgument := True\<rparr>)"
  by (simp add: writeRune_def encodeRune_ascii)

lemma Close_word:
  assumes "space w = []" and "lineLen w \<le> Limit w" and "\<not> PreserveSpaces w"
  shows "andThen (Close rw w) (\<lambda>w. Inr (buf w)) = Inr (buf w @ word w)"
  using assms by (simp add: Close_def addWord_def addSpace_def)

section \<open>Passthrough when the limit is zero\<close>

lemma Write_passthrough: "Limit w = 0 \<Longrightarrow> Write rw w b = Inr (w\<lparr>buf := buf w @ b\<rparr>)"
  by (simp add: Write_def)

lemma writeAll_passthrough:
  "Limit w = 0 \<Longrightarrow> writeAll rw w bs = Inr (w\<lparr>buf := buf w @ concat bs\<rparr>)"
  by (induction bs arbitrary: w) (simp_all add: Write_passthrough)

lemma Close_idle:
  "space w = [] \<Longrightarrow> word w = [] \<Longrightarrow> lineLen w \<le> Limit w \<Longrightarrow> Close rw w = Inr w"
  by (simp add: Close_def addSpace_def addWord_def)

text \<open>
  C8. With \<open>Limit = 0\<close>, whatever the other settings, the result of a session is the
  concatenation of the inputs of its \<^verbatim>\<open>Write\<close> calls, byte for byte.
\<close>

theorem limit_zero_passthrough:
  "result rw ((NewWriter 0)\<lparr>Breakpoints := bp, Newline := nl, KeepNewlines := k, HardWrap := h,
       TabReplace := t, PreserveSpaces := p\<rparr>) bs = Inr (concat bs)"
  by (simp add: result_def writeAll_passthrough Close_idle)


section \<open>The escape-sequence normalizer\<close>

lemma split_steps:
  assumes "writeRune rw w 0x1B = Inr w1" and "\<not> leadingZero w"
  shows "writeRunes rw w (runes (CHR 0x1B # ''[31;0;32m'')) =
     Inr (w1\<lparr>word := word w1 @ ''[31;0m'' @ CHR 0x1B # ''[32m'',
            lastAnsi := CHR 0x1B # ''[32m'', ansi := False, newArgument := False\<rparr>)"
proof -
  note f = writeRune_ESC [OF assms(1)]
  have r: "runes (CHR 0x1B # ''[31;0;32m'') =
      [0x1B, 0x5B, 0x33, 0x31, 0x3B, 0x30, 0x3B, 0x33, 0x32, 0x6D]"
    by (simp add: runes_ascii)
  show ?thesis
    using f assms
    by (simp add: r writeRune_ansi writeAnsi_def encodeRune_ascii IsTerminator_def Let_def)
qed

lemma split_Write:
  assumes "0 < limit"
  shows "Write rw (NewWriter limit) (CHR 0x1B # ''[31;0;32m'') =
     Inr ((NewWriter limit)\<lparr>wroteBegin := True,
       word := CHR 0x1B # ''[31;0m'' @ CHR 0x1B # ''[32m'',
       lastAnsi := CHR 0x1B # ''[32m''\<rparr>)"
proof -
  have "Write rw (NewWriter limit) (CHR 0x1B # ''[31;0;32m'') =
      writeRunes rw (NewWriter limit) (runes (CHR 0x1B # ''[31;0;32m''))"
    using assms by (simp add: Write_def)
  also have "\<dots> = Inr ((NewWriter limit)\<lparr>wroteBegin := True,
       word := CHR 0x1B # ''[31;0m'' @ CHR 0x1B # ''[32m'',
       lastAnsi := CHR 0x1B # ''[32m''\<rparr>)"
    by (subst split_steps [OF writeRune_first_ESC]) simp_all
  finally show ?thesis .
qed

text \<open>
  C5. The input \<^verbatim>\<open>ESC[31;0;32m\<close> comes out as \<^verbatim>\<open>ESC[31;0m\<close> followed by \<^verbatim>\<open>ESC[32m\<close>,
  the second semicolon dropped, for every limit above zero and every width function;
  after the \<^verbatim>\<open>Write\<close> the retained style \<^verbatim>\<open>lastAnsi\<close> is \<^verbatim>\<open>ESC[32m\<close> alone. Wherever the
  sequence stands in an input, once its first byte is taken with no zero withheld, the
  other bytes append exactly the rest of the two sequences to the pending word.
\<close>

theorem multi_attribute_split:
  assumes "0 < limit"
  shows "Bytes rw (CHR 0x1B # ''[31;0;32m'') limit = Inr (CHR 0x1B # ''[31;0m'' @ CHR 0x1B # ''[32m'')
    \<and> andThen (Write rw (NewWriter limit) (CHR 0x1B # ''[31;0;32m'')) (\<lambda>w. Inr (lastAnsi w))
        = Inr (CHR 0x1B # ''[32m'')
    \<and> (\<forall>w w1. writeRune rw w 0x1B = Inr w1 \<and> \<not> leadingZero w \<longrightarrow>
          writeRunes rw w (runes (CHR 0x1B # ''[31;0;32m'')) =
            Inr (w1\<lparr>word := word w1 @ ''[31;0m'' @ CHR 0x1B # ''[32m'',
                   lastAnsi := CHR 0x1B # ''[32m'', ansi := False, newArgument := False\<rparr>))"
  using assms
  by (simp add: Bytes_def split_Write split_steps Close_word)

theorem multi_attribute_split_witness:
  "Bytes cellWidth (CHR 0x1B # ''[31;0;32m'') 5 = Inr (CHR 0x1B # ''[31;0m'' @ CHR 0x1B # ''[32m'')
    \<and> andThen (Write cellWidth (NewWriter 5) (CHR 0x1B # ''[31;0;32m'')) (\<lambda>w. Inr (lastAnsi w))
        = Inr (CHR 0x1B # ''[32m'')"
  using multi_attribute_split [of 5 cellWidth] by simp

lemma writeRunes_zeros:
  "ansi v \<Longrightarrow> newArgument v \<Longrightarrow>
   writeRunes rw v (replicate k 0x30) =
     Inr (if k = 0 then v else v\<lparr>wroteBegin := True, leadingZero := True\<rparr>)"
proof (induction k arbitrary: v)
  case 0
  show ?case by simp
next
  case (Suc k)
  have "writeRune rw v 0x30 = Inr (v\<lparr>wroteBegin := True, leadingZero := True\<rparr>)"
    using Suc.prems by (simp add: writeRune_ansi writeAnsi_def)
  then show ?case using Suc.prems by (simp add: Suc.IH)
qed

lemma zeros_steps:
  assumes "writeRune rw w 0x1B = Inr w1" and "\<not> leadingZero w"
  shows "writeRunes rw w (runes (CHR 0x1B # ''['' @ replicate k CHR ''0'' @ ''31m'')) =
     Inr (w1\<lparr>word := word w1 @ ''[31m'', lastAnsi := lastAnsi w1 @ ''[31m'',
            ansi := False, newArgument := False\<rparr>)"
proof -
  note f = writeRune_ESC [OF assms(1)]
  define u where "u = w1\<lparr>word := word w1 @ ''['', lastAnsi := lastAnsi w1 @ ''[''\<rparr>"
  define u' where "u' = (if k = 0 then u else u\<lparr>wroteBegin := True, leadingZero := True\<rparr>)"
  have r: "runes (CHR 0x1B # ''['' @ replicate k CHR ''0'' @ ''31m'') =
      [0x1B, 0x5B] @ replicate k 0x30 @ [0x33, 0x31, 0x6D]"
    by (simp add: runes_ascii)
  have "writeAnsi w1 0x5B = u"
    using f assms
    by (simp add: u_def writeAnsi_def encodeRune_ascii IsTerminator_def Let_def wroteBegin_id)
  then have v: "writeRunes rw w [0x1B, 0x5B] = Inr u"
    using f assms by (simp add: writeRune_ansi wroteBegin_id)
  have a: "ansi u" "newArgument u"
    using f by (simp_all add: u_def)
  have z: "writeRunes rw u (replicate k 0x30) = Inr u'"
    unfolding u'_def using a by (rule writeRunes_zeros)
  have t: "writeRunes rw u' [0x33, 0x31, 0x6D] =
     Inr (w1\<lparr>word := word w1 @ ''[31m'', lastAnsi := lastAnsi w1 @ ''[31m'',
            ansi := False, newArgument := False\<rparr>)"
    using f assms
    by (simp add: u'_def u_def writeRune_ansi writeAnsi_def encodeRune_ascii IsTerminator_def
        Let_def wroteBegin_id)
  show ?thesis
    by (simp only: r writeRunes_append v z t andThen_Inr)
qed

lemma nonzero_digit_clears:
  assumes "ansi w" and "0x31 \<le> c" and "c \<le> 0x39"
  shows "writeRune rw w c =
    Inr (w\<lparr>wroteBegin := True, newArgument := False, leadingZero := False,
      lastAnsi := lastAnsi w @ [char_of c], word := word w @ [char_of c]\<rparr>)"
proof -
  have c: "c \<in> {0x31, 0x32, 0x33, 0x34, 0x35, 0x36, 0x37, 0x38, 0x39}"
    using assms(2,3) by auto
  have g: "inGroup [0x31, 0x32, 0x33, 0x34, 0x35, 0x36, 0x37, 0x38, 0x39] c"
    using c by auto
  have n: "\<not> inGroup [0x5B, 0x3B] c" "c \<noteq> 0x30" "c \<noteq> 0x1B" "\<not> IsTerminator c" "c < 0x80"
    using assms(2,3) by (auto simp: IsTerminator_def)
  have "writeAnsi (w\<lparr>wroteBegin := True\<rparr>) c =
     w\<lparr>wroteBegin := True, newArgument := False, leadingZero := False,
      lastAnsi := lastAnsi w @ [char_of c], word := word w @ [char_of c]\<rparr>"
    unfolding writeAnsi_def Let_def
    by (simp only: g n encodeRune_ascii [OF n(5)] if_True if_False simp_thms)
       simp
  then show ?thesis
    using assms(1) n(3) by (simp add: writeRune_ansi)
qed

text \<open>
  C6. The input \<^verbatim>\<open>ESC[0031m\<close> comes out as \<^verbatim>\<open>ESC[31m\<close>, and so does the sequence with any
  number \<open>k\<close> of zeros before the \<^verbatim>\<open>31\<close>, wherever it stands in an input (once its first
  byte is taken with no zero withheld). Inside a sequence a digit from 1 to 9 is copied
  and leaves \<^verbatim>\<open>leadingZero\<close> false.
\<close>

theorem leading_zeros_stripped:
  assumes "0 < limit"
  shows "Bytes rw (CHR 0x1B # ''[0031m'') limit = Inr (CHR 0x1B # ''[31m'')
    \<and> Bytes rw (CHR 0x1B # ''['' @ replicate k CHR ''0'' @ ''31m'') limit = Inr (CHR 0x1B # ''[31m'')
    \<and> (\<forall>w w1. writeRune rw w 0x1B = Inr w1 \<and> \<not> leadingZero w \<longrightarrow>
          writeRunes rw w (runes (CHR 0x1B # ''['' @ replicate k CHR ''0'' @ ''31m'')) =
            Inr (w1\<lparr>word := word w1 @ ''[31m'', lastAnsi := lastAnsi w1 @ ''[31m'',
                   ansi := False, newArgument := False\<rparr>))
    \<and> (\<forall>w c. ansi w \<and> 0x31 \<le> c \<and> c \<le> 0x39 \<longrightarrow>
          writeRune rw w c =
            Inr (w\<lparr>wroteBegin := True, newArgument := False, leadingZero := False,
              lastAnsi := lastAnsi w @ [char_of c], word := word w @ [char_of c]\<rparr>))"
proof -
  have k: "Bytes rw (CHR 0x1B # ''['' @ replicate k CHR ''0'' @ ''31m'') limit = Inr (CHR 0x1B # ''[31m'')"
    for k
  proof -
    have "Write rw (NewWriter limit) (CHR 0x1B # ''['' @ replicate k CHR ''0'' @ ''31m'') =
        writeRunes rw (NewWriter limit) (runes (CHR 0x1B # ''['' @ replicate k CHR ''0'' @ ''31m''))"
      using assms by (simp add: Write_def)
    also have "\<dots> = Inr ((NewWriter limit)\<lparr>wroteBegin := True, word := CHR 0x1B # ''[31m'',
         lastAnsi := CHR 0x1B # ''[31m''\<rparr>)"
      by (subst zeros_steps [OF writeRune_first_ESC]) simp_all
    finally show ?thesis
      using assms by (simp add: Bytes_def Close_word)
  qed
  have "replicate 2 CHR ''0'' = ''00''"
    by (simp add: numeral_2_eq_2)
  then have "Bytes rw (CHR 0x1B # ''[0031m'') limit = Inr (CHR 0x1B # ''[31m'')"
    using k [of 2] by simp
  then show ?thesis
    using k [of k] zeros_steps nonzero_digit_clears by blast
qed

theorem leading_zeros_stripped_witness:
  "Bytes cellWidth (CHR 0x1B # ''[0031m'') 5 = Inr (CHR 0x1B # ''[31m'')
   \<and> Bytes cellWidth (CHR 0x1B # ''[00000031m'') 5 = Inr (CHR 0x1B # ''[31m'')"
proof -
  have "replicate 6 CHR ''0'' = ''000000''"
    by (simp add: eval_nat_numeral)
  then show ?thesis
    using leading_zeros_stripped [of 5 cellWidth 6] by simp
qed



section \<open>Flushing a run of spaces\<close>

lemma fullLines_eq:
  "0 < limit \<Longrightarrow> 0 \<le> len \<Longrightarrow>
   fullLines limit len b =
     Some (Inr (len mod limit,
       b @ concat (replicate (nat (len div limit)) (CHR 0x0A # replicate (nat limit) CHR '' ''))))"
proof (induction "nat len" arbitrary: len b rule: less_induct)
  case less
  show ?case
  proof (cases "limit \<le> len")
    case True
    let ?x = "CHR 0x0A # replicate (nat limit) CHR '' ''"
    have "nat (len - limit) < nat len" using less.prems True by simp
    then have ih: "fullLines limit (len - limit) (b @ ?x) =
        Some (Inr ((len - limit) mod limit,
          (b @ ?x) @ concat (replicate (nat ((len - limit) div limit)) ?x)))"
      using less.prems True by (intro less.hyps) simp_all
    have d: "nat (len div limit) = Suc (nat ((len - limit) div limit))"
    proof -
      have "(len - limit) div limit = len div limit - 1"
        using div_add_self2 [of limit "len - limit"] less.prems by simp
      moreover have "1 \<le> len div limit"
        using less.prems True pos_imp_zdiv_pos_iff [of limit len] by simp
      ultimately show ?thesis by simp
    qed
    have m: "(len - limit) mod limit = len mod limit"
      by simp
    show ?thesis
      using True less.prems
      by (subst fullLines.simps) (simp add: ih d m)
  next
    case False
    then have "len div limit = 0" "len mod limit = len"
      using less.prems by (simp_all add: div_pos_pos_trivial)
    with False show ?thesis
      by (subst fullLines.simps) simp
  qed
qed

text \<open>
  C7. When the pending run of spaces is longer than what is left of the current line
  (\<open>lineLen \<le> Limit\<close>, so that something is left or the line is just full), \<^verbatim>\<open>addSpace\<close>
  fills the line with \<open>first = Limit - lineLen\<close> spaces, writes one line of \<open>Limit\<close> spaces for
  each complete multiple of \<open>Limit\<close> in the \<open>n\<close> spaces remaining, then a last line with
  the \<open>n mod Limit\<close> spaces left over when there are any, and leaves \<open>lineLen = n mod Limit\<close>.
\<close>

theorem addSpace_splits:
  assumes "0 < Limit w" and "lineLen w \<le> Limit w"
    and "Limit w - lineLen w < int (length (space w))"
  shows "addSpace w =
    (let first = Limit w - lineLen w; n = int (length (space w)) - first in
     Inr (w\<lparr>buf := buf w @ replicate (nat first) CHR '' ''
               @ concat (replicate (nat (n div Limit w))
                   (CHR 0x0A # replicate (nat (Limit w)) CHR '' ''))
               @ (if 0 < n mod Limit w then CHR 0x0A # replicate (nat (n mod Limit w)) CHR '' ''
                  else []),
            lineLen := n mod Limit w, space := []\<rparr>))"
proof -
  let ?first = "Limit w - lineLen w"
  let ?n = "int (length (space w)) - ?first"
  have rp: "Repeat '' '' ?first = Inr (replicate (nat ?first) CHR '' '')"
    using assms(2) by (simp add: Repeat_def concat_replicate_single)
  have fl: "fullLines (Limit w) ?n (buf w @ replicate (nat ?first) CHR '' '') =
      Some (Inr (?n mod Limit w, (buf w @ replicate (nat ?first) CHR '' '')
        @ concat (replicate (nat (?n div Limit w)) (CHR 0x0A # replicate (nat (Limit w)) CHR '' ''))))"
    using assms by (intro fullLines_eq) simp_all
  show ?thesis
    using assms(3) by (simp add: addSpace_def Let_def rp fl)
qed

text \<open>Twelve spaces, \<open>Limit = 5\<close>, \<open>lineLen = 3\<close>, \<^verbatim>\<open>PreserveSpaces\<close> set: 2 + 5 + 5.\<close>

theorem addSpace_splits_witness:
  "addSpace ((NewWriter 5)\<lparr>PreserveSpaces := True, lineLen := 3, space := replicate 12 CHR '' ''\<rparr>) =
     Inr ((NewWriter 5)\<lparr>PreserveSpaces := True, lineLen := 0, space := [],
       buf := ''  '' @ CHR 0x0A # ''     '' @ CHR 0x0A # ''     ''\<rparr>)"
  using addSpace_splits [of "(NewWriter 5)\<lparr>PreserveSpaces := True, lineLen := 3, space := replicate 12 CHR '' ''\<rparr>"]
  by (simp add: Let_def eval_nat_numeral)

section \<open>Invalid UTF-8\<close>








section \<open>Where the code leaves its description\<close>

text \<open>
  C2. \<^verbatim>\<open>Write\<close> can abort. With the default settings and limit 3, the input \<^verbatim>\<open>aaaa--\<close>
  commits the overlong word at the first \<^verbatim>\<open>-\<close>, so that \<open>lineLen = 4 > Limit\<close>; at the second
  \<^verbatim>\<open>-\<close>, \<^verbatim>\<open>addSpace\<close> finds that the empty run of spaces does not fit in \<open>Limit - lineLen = -1\<close>
  and calls \<^verbatim>\<open>strings.Repeat\<close> with that count, which panics.
\<close>

theorem addSpace_panics: "Bytes cellWidth ''aaaa--'' 3 = Inl NegativeRepeatCount"
  by code_simp

text \<open>
  C3. After \<^verbatim>\<open>Write\<close> of \<^verbatim>\<open>a-\<close> (default settings, limit 5) the output holds the two
  columns \<^verbatim>\<open>a-\<close> on its current line, and \<open>lineLen\<close> is 1: the breakpoint character is
  written without being counted.
\<close>

theorem breakpoint_not_counted:
  "andThen (Write cellWidth (NewWriter 5) ''a-'')
     (\<lambda>w. Inr (buf w, lineLen w, PrintableRuneWidth cellWidth (lastLine (buf w))))
   = Inr (''a-'', 1, 2)"
  by code_simp

text \<open>
  C4. The input \<^verbatim>\<open>ESC[31maaaa b\<close> at limit 5: the last rune forces the line break, no rune
  follows it to trigger the restart of the style, and \<^verbatim>\<open>Close\<close> flushes the pending
  \<^verbatim>\<open>b\<close> onto the new line bare, after the reset \<^verbatim>\<open>ESC[0m\<close>.
\<close>

theorem style_not_restored_at_end:
  "Bytes cellWidth (CHR 0x1B # ''[31maaaa b'') 5 =
     Inr (CHR 0x1B # ''[31maaaa'' @ CHR 0x1B # ''[0m'' @ CHR 0x0A # ''b'')"
  by code_simp


section \<open>UTF-8: decoding what was encoded\<close>

lemma mod_shift: "r < m \<Longrightarrow> (k * m + r) mod m = (r::nat)"
  by simp

lemma lead2: "q < 0x20 \<Longrightarrow> (0xC0 + q) mod 0x20 = (q::nat)"
  using mod_shift [of q "0x20" 6] by simp

lemma lead3: "q < 0x10 \<Longrightarrow> (0xE0 + q) mod 0x10 = (q::nat)"
  using mod_shift [of q "0x10" 14] by simp

lemma lead4: "q < 0x08 \<Longrightarrow> (0xF0 + q) mod 0x08 = (q::nat)"
  using mod_shift [of q "0x08" 30] by simp

lemma contb: "r < 0x40 \<Longrightarrow> (0x80 + r) mod 0x40 = (r::nat)"
  using mod_shift [of r "0x40" 2] by simp

lemma decode1: "c < 0x80 \<Longrightarrow> decodeBytes (encodeBytes c @ bs) = (c, 1)"
  by (simp add: encodeBytes_def)

lemma decode2:
  assumes "0x80 \<le> c" "c \<le> 0x7FF"
  shows "decodeBytes (encodeBytes c @ bs) = (c, 2)"
proof -
  define q where "q = c div 0x40"
  define r where "r = c mod 0x40"
  have c: "c = q * 0x40 + r" and r: "r < 0x40"
    by (simp_all add: q_def r_def)
  have q: "2 \<le> q" "q < 0x20"
    using assms unfolding q_def by linarith+
  have e: "encodeBytes c = [0xC0 + q, 0x80 + r]"
    using assms by (simp add: encodeBytes_def q_def r_def)
  show ?thesis
    unfolding e using q r by (simp add: lead2 contb c)
qed

lemma decode3:
  assumes "0x800 \<le> c" "c \<le> 0xFFFF" "c < 0xD800 \<or> 0xDFFF < c"
  shows "decodeBytes (encodeBytes c @ bs) = (c, 3)"
proof -
  define q where "q = c div 0x1000"
  define m where "m = (c div 0x40) mod 0x40"
  define r where "r = c mod 0x40"
  have m: "m < 0x40" and r: "r < 0x40"
    by (simp_all add: m_def r_def)
  have "c = (c div 0x40) * 0x40 + r"
    by (simp add: r_def)
  moreover have "c div 0x40 = (c div 0x40 div 0x40) * 0x40 + m"
    by (simp add: m_def)
  moreover have "c div 0x40 div 0x40 = q"
    by (simp add: q_def div_mult2_eq [symmetric])
  ultimately have c: "c = q * 0x1000 + m * 0x40 + r"
    by simp
  have q: "q < 0x10"
    using assms unfolding q_def by linarith
  have q0: "q = 0 \<Longrightarrow> 0x20 \<le> m" "q = 0xD \<Longrightarrow> m < 0x20"
    using assms c r m by linarith+
  have e: "encodeBytes c = [0xE0 + q, 0x80 + m, 0x80 + r]"
    using assms by (auto simp: encodeBytes_def q_def r_def m_def)
  show ?thesis
    unfolding e using q r m q0 by (auto simp: lead3 contb c cont_def)
qed


lemma decode4:
  assumes "0x10000 \<le> c" "c \<le> 0x10FFFF"
  shows "decodeBytes (encodeBytes c @ bs) = (c, 4)"
proof -
  define q where "q = c div 0x40000"
  define m1 where "m1 = (c div 0x1000) mod 0x40"
  define m2 where "m2 = (c div 0x40) mod 0x40"
  define r where "r = c mod 0x40"
  have m: "m1 < 0x40" "m2 < 0x40" and r: "r < 0x40"
    by (simp_all add: m1_def m2_def r_def)
  have "c = (c div 0x40) * 0x40 + r"
    by (simp add: r_def)
  moreover have "c div 0x40 = (c div 0x40 div 0x40) * 0x40 + m2"
    by (simp add: m2_def)
  moreover have "c div 0x40 div 0x40 = c div 0x1000"
    by (simp add: div_mult2_eq [symmetric])
  moreover have "c div 0x1000 = (c div 0x1000 div 0x40) * 0x40 + m1"
    by (simp add: m1_def)
  moreover have "c div 0x1000 div 0x40 = q"
    by (simp add: q_def div_mult2_eq [symmetric])
  ultimately have c: "c = q * 0x40000 + m1 * 0x1000 + m2 * 0x40 + r"
    by simp
  have q: "q < 0x08" "q \<le> 4"
    using assms unfolding q_def by linarith+
  have q0: "q = 0 \<Longrightarrow> 0x10 \<le> m1" "q = 4 \<Longrightarrow> m1 < 0x10"
    using assms c r m by linarith+
  have e: "encodeBytes c = [0xF0 + q, 0x80 + m1, 0x80 + m2, 0x80 + r]"
    using assms by (auto simp: encodeBytes_def q_def r_def m1_def m2_def)
  show ?thesis
    unfolding e using q r m q0 by (auto simp: lead4 contb c cont_def)
qed

lemma decode_encode:
  assumes "validRune c"
  shows "decodeBytes (encodeBytes c @ bs) = (c, length (encodeBytes c))"
proof -
  consider "c < 0x80" | "0x80 \<le> c" "c \<le> 0x7FF" | "0x800 \<le> c" "c \<le> 0xFFFF" | "0x10000 \<le> c"
    by linarith
  then show ?thesis
  proof cases
    case 1
    then show ?thesis by (simp add: decode1) (simp add: encodeBytes_def)
  next
    case 2
    then show ?thesis by (simp add: decode2) (simp add: encodeBytes_def)
  next
    case 3
    with assms have "c < 0xD800 \<or> 0xDFFF < c" by (auto simp: validRune_def)
    with 3 show ?thesis by (simp add: decode3) (auto simp: encodeBytes_def)
  next
    case 4
    with assms have "c \<le> 0x10FFFF" by (auto simp: validRune_def)
    with 4 show ?thesis by (simp add: decode4) (auto simp: encodeBytes_def)
  qed
qed

lemma encodeBytes_nonempty: "encodeBytes c \<noteq> []"
  by (simp add: encodeBytes_def)

lemma rangeBytes_encode:
  assumes "validRune c"
  shows "rangeBytes (encodeBytes c @ bs) = c # rangeBytes bs"
proof -
  obtain b r where e: "encodeBytes c = b # r"
    using encodeBytes_nonempty [of c] by (cases "encodeBytes c") auto
  have "decodeBytes (b # r @ bs) = (c, Suc (length r))"
    using decode_encode [OF assms, of bs] by (simp add: e)
  then show ?thesis
    by (simp add: e)
qed


lemma encodeBytes_byte: "b \<in> set (encodeBytes c) \<Longrightarrow> b < 256"
proof -
  assume b: "b \<in> set (encodeBytes c)"
  have "c mod 0x40 < 0x40" "c div 0x40 mod 0x40 < 0x40" "c div 0x1000 mod 0x40 < 0x40"
    by simp_all
  moreover have "c \<le> 0x7FF \<Longrightarrow> c div 0x40 < 0x20" "c \<le> 0xFFFF \<Longrightarrow> c div 0x1000 < 0x10"
    "c \<le> 0x10FFFF \<Longrightarrow> c div 0x40000 < 0x08"
    by linarith+
  ultimately show ?thesis
    using b by (auto simp: encodeBytes_def split: if_splits)
qed

lemma of_char_encodeRune: "map of_char (encodeRune c) = encodeBytes c"
proof -
  have "map (\<lambda>b. b mod 256) (encodeBytes c) = map (\<lambda>b. b) (encodeBytes c)"
    by (rule map_cong) (simp_all add: encodeBytes_byte)
  then show ?thesis
    by (simp add: encodeRune_def comp_def)
qed

lemma runes_encodeRune: "validRune c \<Longrightarrow> runes (encodeRune c @ s) = c # runes s"
  by (simp add: runes_def of_char_encodeRune rangeBytes_encode)

lemma runes_enc_append: "list_all validRune rs \<Longrightarrow> runes (enc rs @ s) = rs @ runes s"
  by (induction rs) (simp_all add: enc_def runes_encodeRune)

lemma runes_Nil [simp]: "runes [] = []"
  by (simp add: runes_def)

lemma runes_enc: "list_all validRune rs \<Longrightarrow> runes (enc rs) = rs"
  using runes_enc_append [of rs "[]"] by simp

lemma cont_mod: "0x80 \<le> s \<Longrightarrow> s \<le> 0xBF \<Longrightarrow> s mod 0x40 = s - (0x80::nat)"
  using contb [of "s - 0x80"] by simp

lemma lead2_mod: "0xC0 \<le> s \<Longrightarrow> s < 0xE0 \<Longrightarrow> s mod 0x20 = s - (0xC0::nat)"
  using lead2 [of "s - 0xC0"] by simp

lemma lead3_mod: "0xE0 \<le> s \<Longrightarrow> s < 0xF0 \<Longrightarrow> s mod 0x10 = s - (0xE0::nat)"
  using lead3 [of "s - 0xE0"] by simp

lemma lead4_mod: "0xF0 \<le> s \<Longrightarrow> s < 0xF8 \<Longrightarrow> s mod 0x08 = s - (0xF0::nat)"
  using lead4 [of "s - 0xF0"] by simp

lemma decodeBytes_valid: "validRune (fst (decodeBytes bs))"
proof (cases bs)
  case Nil
  then show ?thesis by (simp add: validRune_def RuneError_def)
next
  case (Cons s0 r)
  consider "s0 < 0xC2 \<or> 0xF4 < s0" | "0xC2 \<le> s0" "s0 < 0xE0"
    | "0xE0 \<le> s0" "s0 < 0xED" | "s0 = 0xED" | "0xED < s0" "s0 < 0xF0"
    | "s0 = 0xF0" | "0xF0 < s0" "s0 < 0xF4" | "s0 = 0xF4"
    by linarith
  then show ?thesis
  proof cases
    case 1
    then show ?thesis
      by (auto simp: Cons validRune_def RuneError_def)
  next
    case 2
    then show ?thesis
      by (auto simp: Cons validRune_def RuneError_def Let_def lead2_mod cont_mod split: list.splits)
  next
    case 3
    then show ?thesis
      by (auto simp: Cons validRune_def RuneError_def Let_def cont_def lead3_mod cont_mod
          split: list.splits)
  next
    case 4
    then show ?thesis
      by (auto simp: Cons validRune_def RuneError_def Let_def cont_def cont_mod
          split: list.splits)
  next
    case 5
    then show ?thesis
      by (auto simp: Cons validRune_def RuneError_def Let_def cont_def lead3_mod cont_mod
          split: list.splits)
  next
    case 6
    then show ?thesis
      by (auto simp: Cons validRune_def RuneError_def Let_def cont_def cont_mod
          split: list.splits)
  next
    case 7
    then show ?thesis
      by (auto simp: Cons validRune_def RuneError_def Let_def cont_def lead4_mod cont_mod
          split: list.splits)
  next
    case 8
    then show ?thesis
      by (auto simp: Cons validRune_def RuneError_def Let_def cont_def cont_mod
          split: list.splits)
  qed
qed

lemma rangeBytes_valid: "list_all validRune (rangeBytes bs)"
proof (induction bs rule: rangeBytes.induct)
  case 1
  show ?case by simp
next
  case (2 b bs)
  obtain c n where d: "decodeBytes (b # bs) = (c, n)"
    by (cases "decodeBytes (b # bs)")
  then have "validRune c"
    using decodeBytes_valid [of "b # bs"] by simp
  then show ?case
    using 2 [OF d [symmetric]] d by simp
qed

lemma runes_valid: "list_all validRune (runes s)"
  by (simp add: runes_def rangeBytes_valid)

section \<open>Well-formed buffers\<close>

lemma enc_append [simp]: "enc (xs @ ys) = enc xs @ enc ys"
  by (simp add: enc_def)

lemma enc_Nil [simp]: "enc [] = []"
  by (simp add: enc_def)

lemma enc_single [simp]: "enc [c] = encodeRune c"
  by (simp add: enc_def)

lemma enc_runes: "utf8 s \<Longrightarrow> enc (runes s) = s"
  by (simp add: utf8_def)

lemma utf8_Nil [simp]: "utf8 []"
  by (simp add: utf8_def)

lemma utf8_enc: "list_all validRune rs \<Longrightarrow> utf8 (enc rs)"
  by (simp add: utf8_def runes_enc)

lemma runes_append: "utf8 s \<Longrightarrow> runes (s @ t) = runes s @ runes t"
proof -
  assume "utf8 s"
  then have "s = enc (runes s)" by (simp add: utf8_def)
  then have "runes (s @ t) = runes (enc (runes s) @ t)" by simp
  also have "\<dots> = runes s @ runes t"
    by (rule runes_enc_append) (rule runes_valid)
  finally show ?thesis .
qed

lemma utf8_append: "utf8 s \<Longrightarrow> utf8 t \<Longrightarrow> utf8 (s @ t)"
  by (simp add: utf8_def runes_append enc_runes)

lemma runes_encodeRune1: "validRune c \<Longrightarrow> runes (encodeRune c) = [c]"
  using runes_encodeRune [of c "[]"] by simp

lemma utf8_encodeRune: "validRune c \<Longrightarrow> utf8 (encodeRune c)"
  by (simp add: utf8_def runes_encodeRune1)

lemma runes_snoc: "utf8 s \<Longrightarrow> validRune c \<Longrightarrow> runes (s @ encodeRune c) = runes s @ [c]"
  by (simp add: runes_append runes_encodeRune1)

lemma ascii_valid: "c < 0x80 \<Longrightarrow> validRune c"
  by (simp add: validRune_def)

lemma enc_replicate_ascii: "c < 0x80 \<Longrightarrow> enc (replicate n c) = replicate n (char_of c)"
  by (induction n) (simp_all add: enc_def encodeRune_ascii)

lemma char_of_space [simp]: "char_of (0x20::nat) = CHR '' ''" "char_of (0x0A::nat) = CHR 0x0A"
  by (simp_all add: char_of_eq_iff)

lemma spaces_enc: "replicate n CHR '' '' = enc (replicate n 0x20)"
  by (simp add: enc_replicate_ascii)

lemma newline_enc: "[CHR 0x0A] = enc [0x0A]"
  by (simp add: encodeRune_ascii)

lemma list_all_replicate: "P x \<Longrightarrow> list_all P (replicate n x)"
  by (induction n) simp_all

lemma runes_spaces [simp]: "runes (replicate n CHR '' '') = replicate n 0x20"
  by (simp add: spaces_enc runes_enc list_all_replicate ascii_valid)

lemma utf8_spaces [simp]: "utf8 (replicate n CHR '' '')"
  unfolding spaces_enc by (rule utf8_enc) (simp add: list_all_replicate ascii_valid)

lemma runes_newline [simp]: "runes [CHR 0x0A] = [0x0A]"
  by (simp add: newline_enc runes_enc ascii_valid del: enc_single)

lemma utf8_newline [simp]: "utf8 [CHR 0x0A]"
  unfolding newline_enc by (rule utf8_enc) (simp add: ascii_valid)

lemma encodeRune_length: "1 \<le> length (encodeRune c)"
  by (simp add: encodeRune_def encodeBytes_def)

section \<open>Lines\<close>

lemma splitFrom_nonempty [simp]: "splitFrom nl acc xs \<noteq> []"
  by (induction xs arbitrary: acc) simp_all

lemma splitFrom_append:
  "splitFrom nl acc (xs @ ys) =
     butlast (splitFrom nl acc xs) @ splitFrom nl (last (splitFrom nl acc xs)) ys"
  by (induction xs arbitrary: acc) simp_all

lemma splitFrom_plain: "nl \<notin> set ys \<Longrightarrow> splitFrom nl acc ys = [acc @ ys]"
  by (induction ys arbitrary: acc) auto

lemma last_split_plain:
  "nl \<notin> set ys \<Longrightarrow> last (splitFrom nl acc (xs @ ys)) = last (splitFrom nl acc xs) @ ys"
  by (simp add: splitFrom_append splitFrom_plain)

lemma butlast_split_plain:
  "nl \<notin> set ys \<Longrightarrow> butlast (splitFrom nl acc (xs @ ys)) = butlast (splitFrom nl acc xs)"
  by (simp add: splitFrom_append splitFrom_plain)

lemma last_split_nl: "last (splitFrom nl acc (xs @ [nl])) = []"
  by (simp add: splitFrom_append)

lemma butlast_split_nl:
  "butlast (splitFrom nl acc (xs @ [nl])) =
     butlast (splitFrom nl acc xs) @ [last (splitFrom nl acc xs)]"
  by (simp add: splitFrom_append butlast_append)

section \<open>Widths and words\<close>

lemma width_Nil [simp]: "width rw [] = 0"
  by (simp add: width_def)

lemma width_append [simp]: "width rw (xs @ ys) = width rw xs + width rw ys"
  by (simp add: width_def)

lemma width_Cons [simp]: "width rw (x # xs) = rw x + width rw xs"
  by (simp add: width_def)

lemma printable_plain: "0x1B \<notin> set rs \<Longrightarrow> printable rw False rs = width rw rs"
  by (induction rs) simp_all

lemma maxWord_ge: "a \<le> maxWord rw a xs"
  by (induction xs arbitrary: a) (auto intro: le_trans [OF le_add1])

lemma maxWord_mono: "a \<le> b \<Longrightarrow> maxWord rw a xs \<le> maxWord rw b xs"
  by (induction xs arbitrary: a b) auto

lemma maxWord_append_ge: "maxWord rw a xs \<le> maxWord rw a (xs @ ys)"
proof (induction xs arbitrary: a)
  case Nil
  show ?case by (simp add: maxWord_ge)
next
  case (Cons x xs)
  show ?case
    using Cons.IH [of 0] Cons.IH [of "a + rw x"] by auto
qed

lemma maxWord_word: "\<forall>c\<in>set wd. \<not> IsSpace c \<Longrightarrow> a + width rw wd \<le> maxWord rw a (wd @ ys)"
proof (induction wd arbitrary: a)
  case Nil
  show ?case by (simp add: maxWord_ge)
next
  case (Cons c wd)
  then show ?case
    using Cons.IH [of "a + rw c"] by (simp add: add.assoc)
qed

lemma maxWord_suffix_word:
  "\<forall>c\<in>set wd. \<not> IsSpace c \<Longrightarrow> width rw wd \<le> maxWord rw a (xs @ wd)"
proof (induction xs arbitrary: a)
  case Nil
  then show ?case
    using maxWord_word [of wd a rw "[]"] by simp
next
  case (Cons x xs)
  show ?case
  proof (cases "IsSpace x")
    case True
    then show ?thesis
      using Cons.IH [OF Cons.prems, of 0] by simp
  next
    case False
    then show ?thesis
      using Cons.IH [OF Cons.prems, of "a + rw x"] by simp
  qed
qed

section \<open>Words that break no line\<close>

lemma noBreak_snoc:
  "noBreak rw limit base a (cs @ [c]) =
     (noBreak rw limit base a cs
      \<and> \<not> (base + int (a + width rw cs + rw c) > limit \<and> int (a + width rw cs + rw c) < limit))"
  by (induction cs arbitrary: a) (auto simp: add.assoc)

lemma noBreak_zero: "base \<le> 0 \<Longrightarrow> noBreak rw limit base a cs"
  by (induction cs arbitrary: a) auto

lemma noBreak_last:
  "noBreak rw limit base a cs \<Longrightarrow> cs \<noteq> [] \<Longrightarrow>
   base + int (a + width rw cs) \<le> limit \<or> limit \<le> int (a + width rw cs)"
proof (induction cs arbitrary: a)
  case Nil
  then show ?case by simp
next
  case (Cons c cs)
  show ?case
  proof (cases "cs = []")
    case True
    with Cons.prems show ?thesis by auto
  next
    case False
    with Cons.prems Cons.IH [of "a + rw c"] show ?thesis
      by (auto simp: add.assoc)
  qed
qed

lemma noBreak_over:
  "noBreak rw limit base a cs \<Longrightarrow> limit < base \<Longrightarrow> noBreak rw limit base' a cs"
  by (induction cs arbitrary: a) auto

lemma noBreak_first:
  "noBreak rw limit base 0 (c # cs) \<Longrightarrow> base + int (rw c) \<le> limit \<or> limit \<le> int (rw c)"
  by auto

section \<open>The flush operations under the default settings\<close>

lemma addNewLine_plain:
  "plainCfg limit w \<Longrightarrow>
   addNewLine w = Inr (w\<lparr>buf := buf w @ [CHR 0x0A], lineLen := 0, space := [], wroteBegin := False\<rparr>)"
  by (simp add: addNewLine_def plainCfg_def)

lemma addSpace_fits:
  "int (length (space w)) \<le> Limit w - lineLen w \<Longrightarrow>
   addSpace w = Inr (w\<lparr>lineLen := lineLen w + int (length (space w)), buf := buf w @ space w,
     space := []\<rparr>)"
  by (simp add: addSpace_def)

lemma addSpace_negative:
  "\<not> int (length (space w)) \<le> Limit w - lineLen w \<Longrightarrow> Limit w < lineLen w \<Longrightarrow>
   addSpace w = Inl NegativeRepeatCount"
  by (simp add: addSpace_def Repeat_def)

lemma addSpace_overflow:
  assumes "0 < Limit w" and "lineLen w \<le> Limit w"
    and "Limit w - lineLen w < int (length (space w))"
  shows "addSpace w =
     Inr (w\<lparr>buf := buf w @ fill (CHR 0x0A) CHR '' '' (nat (Limit w - lineLen w))
                 (nat ((int (length (space w)) - (Limit w - lineLen w)) div Limit w))
                 (nat (Limit w))
                 (nat ((int (length (space w)) - (Limit w - lineLen w)) mod Limit w)),
            lineLen := (int (length (space w)) - (Limit w - lineLen w)) mod Limit w,
            space := []\<rparr>)"
proof -
  let ?first = "Limit w - lineLen w"
  let ?n = "int (length (space w)) - ?first"
  have rp: "Repeat '' '' ?first = Inr (replicate (nat ?first) CHR '' '')"
    using assms(2) by (simp add: Repeat_def concat_replicate_single)
  have fl: "fullLines (Limit w) ?n (buf w @ replicate (nat ?first) CHR '' '') =
      Some (Inr (?n mod Limit w, (buf w @ replicate (nat ?first) CHR '' '')
        @ concat (replicate (nat (?n div Limit w)) (CHR 0x0A # replicate (nat (Limit w)) CHR '' ''))))"
    using assms by (intro fullLines_eq) simp_all
  show ?thesis
    using assms(3) by (simp add: addSpace_def Let_def rp fl fill_def)
qed

section \<open>The lines of a flushed run of spaces\<close>

lemma splitFrom_shift: "nl \<notin> set xs \<Longrightarrow> splitFrom nl acc (xs @ ys) = splitFrom nl (acc @ xs) ys"
  by (induction xs arbitrary: acc) auto

lemma splitFrom_full:
  "nl \<notin> set x \<Longrightarrow>
   splitFrom nl acc (concat (replicate (Suc q) (nl # x)) @ ys) =
     acc # replicate q x @ splitFrom nl x ys"
proof (induction q arbitrary: acc)
  case 0
  then show ?case
    using splitFrom_shift [of nl x "[]" ys] by simp
next
  case (Suc q)
  have "splitFrom nl acc (concat (replicate (Suc (Suc q)) (nl # x)) @ ys) =
      acc # splitFrom nl [] (x @ concat (replicate (Suc q) (nl # x)) @ ys)"
    by simp
  also have "\<dots> = acc # splitFrom nl x (concat (replicate (Suc q) (nl # x)) @ ys)"
    using Suc.prems splitFrom_shift [of nl x "[]"] by simp
  also have "\<dots> = acc # x # replicate q x @ splitFrom nl x ys"
    using Suc.IH [OF Suc.prems] by simp
  finally show ?case
    by (simp add: replicate_app_Cons_same)
qed

lemma split_fill:
  assumes "sp \<noteq> nl" and "nl \<notin> set wd" and "0 < q \<or> 0 < r"
  shows "last (splitFrom nl acc (fill nl sp first q l r @ wd)) =
      (if 0 < r then replicate r sp else replicate l sp) @ wd"
    and "P (acc @ replicate first sp) \<Longrightarrow> P (replicate l sp) \<Longrightarrow>
      list_all P (butlast (splitFrom nl acc (fill nl sp first q l r @ wd)))"
proof -
  let ?a = "acc @ replicate first sp"
  let ?x = "replicate l sp"
  have nx: "nl \<notin> set ?x" "nl \<notin> set (replicate first sp)" "nl \<notin> set (replicate r sp)"
    using assms(1) by auto
  have s: "splitFrom nl acc (fill nl sp first k l r @ wd) =
      splitFrom nl ?a (concat (replicate k (nl # ?x)) @ (if 0 < r then nl # replicate r sp else []) @ wd)"
    for k
    unfolding fill_def using nx(2) splitFrom_shift [of nl "replicate first sp" acc] by simp
  have "nl \<notin> set (replicate r sp @ wd)"
    using nx(3) assms(2) by simp
  then have p: "splitFrom nl [] (replicate r sp @ wd) = [replicate r sp @ wd]"
    using splitFrom_plain [of nl "replicate r sp @ wd" "[]"] by simp
  have p': "splitFrom nl b wd = [b @ wd]" for b
    using assms(2) by (simp add: splitFrom_plain)
  show "last (splitFrom nl acc (fill nl sp first q l r @ wd)) =
      (if 0 < r then replicate r sp else replicate l sp) @ wd"
  proof (cases q)
    case 0
    with assms(3) have "0 < r" by simp
    then show ?thesis
      using 0 by (simp add: s p p')
  next
    case (Suc q')
    show ?thesis
      unfolding s Suc splitFrom_full [OF nx(1)] by (simp add: p p')
  qed
  show "list_all P (butlast (splitFrom nl acc (fill nl sp first q l r @ wd)))"
    if "P ?a" "P ?x"
  proof (cases q)
    case 0
    with assms(3) have "0 < r" by simp
    then show ?thesis
      using that 0 by (simp add: s p p')
  next
    case (Suc q')
    show ?thesis
      unfolding s Suc splitFrom_full [OF nx(1)]
      using that by (simp add: p p' butlast_append list_all_replicate)
  qed
qed


lemma map_fill: "map f (fill nl sp a q l r) = fill (f nl) (f sp) a q l r"
  by (simp add: fill_def map_concat)

lemma enc_ascii: "\<forall>c\<in>set rs. c < 0x80 \<Longrightarrow> enc rs = map char_of rs"
  by (induction rs) (simp_all add: enc_def encodeRune_ascii)

lemma set_fill: "set (fill nl sp a q l r) \<subseteq> {nl, sp}"
  by (auto simp: fill_def)

lemma fill_enc: "fill (CHR 0x0A) CHR '' '' a q l r = enc (fill 0x0A 0x20 a q l r)"
proof -
  have "\<forall>c\<in>set (fill 0x0A 0x20 a q l r). c < (0x80::nat)"
    using set_fill [of "0x0A::nat" "0x20" a q l r] by auto
  then show ?thesis
    by (simp add: enc_ascii map_fill)
qed

lemma runes_fill [simp]: "runes (fill (CHR 0x0A) CHR '' '' a q l r) = fill 0x0A 0x20 a q l r"
proof -
  have "list_all validRune (fill 0x0A 0x20 a q l r)"
    using set_fill [of "0x0A::nat" "0x20" a q l r]
    by (auto simp: list_all_iff validRune_def)
  then show ?thesis
    by (simp add: fill_enc runes_enc)
qed

lemma utf8_fill [simp]: "utf8 (fill (CHR 0x0A) CHR '' '' a q l r)"
  using runes_fill [of a q l r] by (simp add: utf8_def fill_enc)

section \<open>The invariant of the engine on plain text\<close>

lemma IsSpace_simps [simp]: "IsSpace 0x0A" "IsSpace 0x20" "\<not> IsSpace 0x1B"
  by (simp_all add: IsSpace_def)

lemma width_spaces_le:
  "spacesNarrow rw \<Longrightarrow> \<forall>c\<in>set sp. IsSpace c \<Longrightarrow> width rw sp \<le> length (enc sp)"
proof (induction sp)
  case Nil
  show ?case by simp
next
  case (Cons c sp)
  then have "rw c \<le> length (encodeRune c)"
    by (simp add: spacesNarrow_def)
  with Cons show ?case by (simp add: enc_def)
qed

lemma width_blanks_le: "spacesNarrow rw \<Longrightarrow> width rw (replicate n 0x20) \<le> n"
proof -
  assume "spacesNarrow rw"
  then have "width rw (replicate n 0x20) \<le> length (enc (replicate n 0x20))"
    by (rule width_spaces_le) simp
  then show ?thesis
    by (simp add: enc_replicate_ascii)
qed

lemma PrintableRuneWidth_plain:
  "0x1B \<notin> set (runes s) \<Longrightarrow> PrintableRuneWidth rw s = int (width rw (runes s))"
  by (simp add: PrintableRuneWidth_def printable_plain)

lemma word_nonempty_runes: "utf8 s \<Longrightarrow> s \<noteq> [] \<Longrightarrow> runes s \<noteq> []"
  using enc_runes [of s] by auto

lemma plainInvD:
  assumes "plainInv rw limit w"
  shows "plainCfg limit w" "utf8 (buf w)" "utf8 (space w)" "utf8 (word w)"
    "0x1B \<notin> set (runes (buf w))"
    "\<forall>c\<in>set (runes (space w)). IsSpace c \<and> c \<noteq> 0x0A"
    "\<forall>c\<in>set (runes (word w)). \<not> IsSpace c \<and> c \<noteq> 0x1B \<and> c \<noteq> 0x2D"
    "0 \<le> lineLen w"
    "noBreak rw limit (lineLen w + int (length (space w))) 0 (runes (word w))"
    "list_all (okLine rw limit) (butlast (linesR w))"
    "(int (width rw (last (linesR w))) \<le> lineLen w \<and> lineLen w \<le> limit)
       \<or> limit \<le> int (maxWord rw 0 (last (linesR w)))"
  using assms by (simp_all add: plainInv_def)

lemma plainCfgD:
  assumes "plainCfg limit w"
  shows "Limit w = limit" "Breakpoints w = [0x2D]" "Newline w = [0x0A]" "\<not> HardWrap w"
    "\<not> PreserveSpaces w" "\<not> ansi w" "lastAnsi w = []"
  using assms by (simp_all add: plainCfg_def)

lemma okLine_cur:
  assumes "(int (width rw l) \<le> L \<and> L \<le> limit) \<or> limit \<le> int (maxWord rw 0 l)"
  shows "okLine rw limit l"
  using assms by (auto simp: okLine_def)


lemma addWord_inv:
  assumes inv: "plainInv rw limit w" and lim: "0 < limit" and nar: "spacesNarrow rw"
    and aw: "addWord rw w = Inr w'"
  shows "plainInv rw limit w'" and "word w' = []" and "word w \<noteq> [] \<Longrightarrow> space w' = []"
proof -
  note d = plainInvD [OF inv]
  note c = plainCfgD [OF d(1)]
  let ?o = "runes (buf w)" and ?sp = "runes (space w)" and ?wd = "runes (word w)"
  let ?L = "lineLen w" and ?S = "int (length (space w))" and ?W = "int (width rw ?wd)"
  let ?cur = "last (linesR w)"
  have pw: "PrintableRuneWidth rw (word w) = ?W"
    using d(7) by (intro PrintableRuneWidth_plain) auto
  have nl_sp: "0x0A \<notin> set ?sp" and nl_wd: "0x0A \<notin> set ?wd"
    using d(6,7) by auto
  have esc_sp: "0x1B \<notin> set ?sp" and esc_wd: "0x1B \<notin> set ?wd"
    using d(6,7) by auto
  have wsp: "int (width rw ?sp) \<le> ?S"
  proof -
    have "width rw ?sp \<le> length (enc ?sp)"
      using nar d(6) by (intro width_spaces_le) auto
    then show ?thesis
      using d(3) by (simp add: enc_runes)
  qed
  have nsp_wd: "\<forall>c\<in>set ?wd. \<not> IsSpace c"
    using d(7) by auto
  have concl: "plainInv rw limit w' \<and> word w' = [] \<and> (word w \<noteq> [] \<longrightarrow> space w' = [])"
  proof (cases "word w = []")
    case True
    with aw inv show ?thesis by (simp add: addWord_def)
  next
    case False
    then have wdne: "?wd \<noteq> []"
      using d(4) by (simp add: word_nonempty_runes)
    from aw False obtain v where v: "addSpace w = Inr v"
      and w': "w' = v\<lparr>lineLen := lineLen v + PrintableRuneWidth rw (word v),
          buf := buf v @ word v, word := []\<rparr>"
      by (auto simp: addWord_def andThen_eq_Inr)
    have last: "?L + ?S + ?W \<le> limit \<or> limit \<le> ?W"
      using noBreak_last [OF d(9) wdne] by simp
    show ?thesis
    proof (cases "?S \<le> limit - ?L")
      case True
      then have "v = w\<lparr>lineLen := ?L + ?S, buf := buf w @ space w, space := []\<rparr>"
        using v c(1) by (simp add: addSpace_fits)
      then have w'': "w' = w\<lparr>lineLen := ?L + ?S + ?W, buf := buf w @ space w @ word w,
          space := [], word := []\<rparr>"
        using w' pw by simp
      have r: "runes (buf w') = ?o @ ?sp @ ?wd"
        using d(2,3) by (simp add: w'' runes_append)
      have lr: "linesR w' = butlast (linesR w) @ [?cur @ ?sp @ ?wd]"
        unfolding linesR_def r
        using nl_sp nl_wd splitFrom_append [of "0x0A" "[]" ?o "?sp @ ?wd"]
        by (simp add: splitFrom_plain)
      have cur: "(int (width rw (?cur @ ?sp @ ?wd)) \<le> ?L + ?S + ?W \<and> ?L + ?S + ?W \<le> limit)
          \<or> limit \<le> int (maxWord rw 0 (?cur @ ?sp @ ?wd))"
      proof (cases "limit \<le> int (maxWord rw 0 ?cur)")
        case True
        then show ?thesis
          using maxWord_append_ge [of rw 0 ?cur "?sp @ ?wd"] by linarith
      next
        case False
        with d(11) have a: "int (width rw ?cur) \<le> ?L" by simp
        show ?thesis
        proof (cases "?L + ?S + ?W \<le> limit")
          case True
          with a wsp show ?thesis by simp
        next
          case False
          with last have "limit \<le> ?W" by simp
          moreover have "width rw ?wd \<le> maxWord rw 0 ((?cur @ ?sp) @ ?wd)"
            using nsp_wd by (rule maxWord_suffix_word)
          ultimately show ?thesis by simp
        qed
      qed
      have "plainInv rw limit w'"
        unfolding plainInv_def
        using d c cur esc_sp esc_wd
        by (simp add: r lr) (simp add: w'' plainCfg_def utf8_append)
      then show ?thesis
        using w'' by simp
    next
      case False
      have Lle: "?L \<le> limit"
      proof (rule ccontr)
        assume "\<not> ?L \<le> limit"
        then have "addSpace w = Inl NegativeRepeatCount"
          using False c(1) by (intro addSpace_negative) simp_all
        with v show False by simp
      qed
      define n where "n = ?S - (limit - ?L)"
      define first where "first = nat (limit - ?L)"
      define q where "q = nat (n div limit)"
      define r where "r = nat (n mod limit)"
      define l where "l = nat limit"
      have npos: "0 < n"
        using False by (simp add: n_def)
      have nqr: "n = int q * limit + int r"
        using lim npos by (simp add: q_def r_def pos_imp_zdiv_nonneg_iff)
      have qr: "0 < q \<or> 0 < r"
        using npos nqr by (cases "q = 0") auto
      have rmod: "int r = n mod limit"
        using lim by (simp add: r_def)
      have "addSpace w = Inr (w\<lparr>buf := buf w @ fill (CHR 0x0A) CHR '' '' first q l r,
          lineLen := n mod limit, space := []\<rparr>)"
        using addSpace_overflow [of w] lim Lle False c(1)
        by (simp add: n_def first_def q_def r_def l_def)
      with v have "v = w\<lparr>buf := buf w @ fill (CHR 0x0A) CHR '' '' first q l r,
          lineLen := n mod limit, space := []\<rparr>"
        by simp
      then have w'': "w' = w\<lparr>lineLen := int r + ?W,
          buf := buf w @ fill (CHR 0x0A) CHR '' '' first q l r @ word w,
          space := [], word := []\<rparr>"
        using w' pw rmod by simp
      let ?f = "fill (0x0A::nat) 0x20 first q l r"
      let ?tail = "(if 0 < r then replicate r (0x20::nat) else replicate l 0x20)"
      have r': "runes (buf w') = ?o @ ?f @ ?wd"
        using d(2,4) by (simp add: w'' runes_append utf8_append)
      have sf: "splitFrom 0x0A [] (?o @ ?f @ ?wd) =
          butlast (linesR w) @ splitFrom 0x0A ?cur (?f @ ?wd)"
        unfolding linesR_def by (rule splitFrom_append)
      have lst: "last (splitFrom 0x0A ?cur (?f @ ?wd)) = ?tail @ ?wd"
        using split_fill(1) [of "0x20" "0x0A" ?wd q r ?cur first l] nl_wd qr by simp
      have okf: "okLine rw limit (?cur @ replicate first 0x20)"
      proof (cases "limit \<le> int (maxWord rw 0 ?cur)")
        case True
        then show ?thesis
          using maxWord_append_ge [of rw 0 ?cur "replicate first 0x20"]
          by (simp add: okLine_def)
      next
        case False
        with d(11) have "int (width rw ?cur) \<le> ?L" by simp
        moreover have "int (width rw (replicate first 0x20)) \<le> limit - ?L"
          using width_blanks_le [OF nar, of first] Lle by (simp add: first_def)
        ultimately show ?thesis
          by (simp add: okLine_def)
      qed
      have okl: "okLine rw limit (replicate l 0x20)"
      proof -
        have "int (width rw (replicate l 0x20)) \<le> int l"
          using width_blanks_le [OF nar, of l] by linarith
        then show ?thesis
          using lim by (simp add: okLine_def l_def)
      qed
      have bl: "list_all (okLine rw limit) (butlast (splitFrom 0x0A ?cur (?f @ ?wd)))"
        using split_fill(2) [of "0x20" "0x0A" ?wd q r "okLine rw limit" ?cur first l, OF _ nl_wd qr okf okl]
        by simp
      have lw: "linesR w' = butlast (linesR w) @ splitFrom 0x0A ?cur (?f @ ?wd)"
        using sf by (simp add: linesR_def r')
      have lr1: "last (linesR w') = ?tail @ ?wd"
        using lst by (simp add: lw)
      have lr2: "butlast (linesR w') =
          butlast (linesR w) @ butlast (splitFrom 0x0A ?cur (?f @ ?wd))"
        by (simp add: lw butlast_append)
      have big: "limit \<le> ?W"
        using last False d(8) by linarith
      have long: "limit \<le> int (maxWord rw 0 (?tail @ ?wd))"
        using maxWord_suffix_word [OF nsp_wd, of rw 0 ?tail] big by linarith
      have esc: "0x1B \<notin> set ?f"
        using set_fill [of "0x0A::nat" "0x20" first q l r] by auto
      have "plainInv rw limit w'"
        unfolding plainInv_def lr1 lr2
        using d c long bl esc esc_wd
        by (simp add: r') (simp add: w'' plainCfg_def utf8_append)
      then show ?thesis
        using w'' by simp
    qed
  qed
  from concl show "plainInv rw limit w'" "word w' = []" "word w \<noteq> [] \<Longrightarrow> space w' = []"
    by simp_all
qed

lemma plainInv_wroteBegin [simp]:
  "plainInv rw limit (w\<lparr>wroteBegin := b\<rparr>) = plainInv rw limit w"
  by (simp add: plainInv_def plainCfg_def linesR_def)

lemma spaces_inv:
  assumes inv: "plainInv rw limit w" and nar: "spacesNarrow rw" and "word w = []"
    and fit: "lineLen w + int (length (space w)) \<le> limit"
  shows "plainInv rw limit
    (w\<lparr>buf := buf w @ space w, lineLen := lineLen w + int (length (space w)), space := []\<rparr>)"
proof -
  note d = plainInvD [OF inv]
  let ?sp = "runes (space w)" and ?cur = "last (linesR w)"
  let ?w' = "w\<lparr>buf := buf w @ space w, lineLen := lineLen w + int (length (space w)), space := []\<rparr>"
  have nl_sp: "0x0A \<notin> set ?sp" and esc_sp: "0x1B \<notin> set ?sp"
    using d(6) by auto
  have wsp: "int (width rw ?sp) \<le> int (length (space w))"
  proof -
    have "width rw ?sp \<le> length (enc ?sp)"
      using nar d(6) by (intro width_spaces_le) auto
    then show ?thesis
      using d(3) by (simp add: enc_runes)
  qed
  have r: "runes (buf w @ space w) = runes (buf w) @ ?sp"
    using d(2) by (simp add: runes_append)
  have lw: "linesR ?w' = butlast (linesR w) @ [?cur @ ?sp]"
    using nl_sp splitFrom_append [of "0x0A" "[]" "runes (buf w)" ?sp]
    by (simp add: linesR_def r splitFrom_plain)
  have cur: "(int (width rw (?cur @ ?sp)) \<le> lineLen w + int (length (space w))
        \<and> lineLen w + int (length (space w)) \<le> limit)
      \<or> limit \<le> int (maxWord rw 0 (?cur @ ?sp))"
  proof (cases "limit \<le> int (maxWord rw 0 ?cur)")
    case True
    then show ?thesis
      using maxWord_append_ge [of rw 0 ?cur ?sp] by linarith
  next
    case False
    with d(11) have "int (width rw ?cur) \<le> lineLen w" by simp
    with wsp fit show ?thesis by simp
  qed
  show ?thesis
    unfolding plainInv_def
    using d cur esc_sp assms(3)
    by (simp add: r lw) (simp add: plainCfg_def utf8_append)
qed

lemma newline_inv:
  assumes inv: "plainInv rw limit w" and lim: "0 < limit"
  shows "plainInv rw limit
    (w\<lparr>buf := buf w @ [CHR 0x0A], lineLen := 0, space := []\<rparr>)"
proof -
  note d = plainInvD [OF inv]
  let ?w' = "w\<lparr>buf := buf w @ [CHR 0x0A], lineLen := 0, space := []\<rparr>"
  have r: "runes (buf w @ [CHR 0x0A]) = runes (buf w) @ [0x0A]"
    using d(2) by (simp add: runes_append)
  have lw: "butlast (linesR ?w') = butlast (linesR w) @ [last (linesR w)]"
    "last (linesR ?w') = []"
    by (simp_all add: linesR_def r butlast_split_nl last_split_nl)
  have ok: "okLine rw limit (last (linesR w))"
    using d(11) by (rule okLine_cur)
  show ?thesis
    unfolding plainInv_def lw
    using d ok lim
    by (simp add: r noBreak_zero) (simp add: plainCfg_def utf8_append)
qed

lemma space_rune_inv:
  assumes inv: "plainInv rw limit w" and "word w = []" and "validRune c" and "IsSpace c"
    and "c \<noteq> 0x0A"
  shows "plainInv rw limit (w\<lparr>space := space w @ encodeRune c\<rparr>)"
proof -
  note d = plainInvD [OF inv]
  have r: "runes (space w @ encodeRune c) = runes (space w) @ [c]"
    using d(3) assms(3) by (rule runes_snoc)
  show ?thesis
    unfolding plainInv_def
    using d assms
    by (simp add: r linesR_def) (simp add: plainCfg_def utf8_append utf8_encodeRune)
qed

lemma writeRune_inv:
  assumes inv: "plainInv rw limit w" and lim: "0 < limit" and nar: "spacesNarrow rw"
    and c: "validRune c" "c \<noteq> 0x1B" "c \<noteq> 0x2D"
    and step: "writeRune rw w c = Inr w'"
  shows "plainInv rw limit w'"
proof -
  note d = plainInvD [OF inv]
  note cf = plainCfgD [OF d(1)]
  let ?w0 = "w\<lparr>wroteBegin := True\<rparr>"
  have inv0: "plainInv rw limit ?w0"
    using inv by simp
  consider (nl) "c = 0x0A" | (sp) "IsSpace c" "c \<noteq> 0x0A" | (wd) "\<not> IsSpace c"
    by auto
  then show ?thesis
  proof cases
    case nl
    show ?thesis
    proof (cases "word w = []")
      case True
      let ?x = "(if lineLen w + int (length (space w)) > limit then ?w0\<lparr>lineLen := 0\<rparr>
                 else ?w0\<lparr>buf := buf w @ space w\<rparr>)\<lparr>space := []\<rparr>"
      have "writeRune rw w c = addNewLine ?x"
        using nl cf True by (simp add: writeRune_def addWord_def)
      also have "\<dots> = Inr (?x\<lparr>buf := buf ?x @ [CHR 0x0A], lineLen := 0, space := [],
          wroteBegin := False\<rparr>)"
        using cf by (intro addNewLine_plain [of limit]) (simp add: plainCfg_def)
      finally have w': "w' = ?x\<lparr>buf := buf ?x @ [CHR 0x0A], lineLen := 0, space := [],
          wroteBegin := False\<rparr>"
        using step by simp
      show ?thesis
      proof (cases "lineLen w + int (length (space w)) > limit")
        case True
        then have "w' = (w\<lparr>buf := buf w @ [CHR 0x0A], lineLen := 0, space := []\<rparr>)
            \<lparr>wroteBegin := False\<rparr>"
          using w' by simp
        then show ?thesis
          using newline_inv [OF inv lim] by simp
      next
        case False
        let ?y = "w\<lparr>buf := buf w @ space w, lineLen := lineLen w + int (length (space w)),
            space := []\<rparr>"
        have y: "plainInv rw limit ?y"
          using inv nar \<open>word w = []\<close> False by (intro spaces_inv) simp_all
        have "w' = (?y\<lparr>buf := buf ?y @ [CHR 0x0A], lineLen := 0, space := []\<rparr>)
            \<lparr>wroteBegin := False\<rparr>"
          using w' False by simp
        then show ?thesis
          using newline_inv [OF y lim] by simp
      qed
    next
      case False
      have "writeRune rw w c = andThen (addWord rw ?w0) addNewLine"
        using nl cf False by (simp add: writeRune_def)
      with step obtain v where v: "addWord rw ?w0 = Inr v" and nlv: "addNewLine v = Inr w'"
        by (auto simp: andThen_eq_Inr)
      have iv: "plainInv rw limit v"
        using inv0 lim nar v by (rule addWord_inv(1))
      have "addNewLine v = Inr (v\<lparr>buf := buf v @ [CHR 0x0A], lineLen := 0, space := [],
          wroteBegin := False\<rparr>)"
        using plainInvD(1) [OF iv] by (rule addNewLine_plain)
      with nlv have "w' = (v\<lparr>buf := buf v @ [CHR 0x0A], lineLen := 0, space := []\<rparr>)
          \<lparr>wroteBegin := False\<rparr>"
        by simp
      then show ?thesis
        using newline_inv [OF iv lim] by simp
    qed
  next
    case sp
    have "writeRune rw w c =
        andThen (addWord rw ?w0) (\<lambda>w. Inr (w\<lparr>space := space w @ encodeRune c\<rparr>))"
      using sp c cf by (simp add: writeRune_def)
    with step obtain v where v: "addWord rw ?w0 = Inr v"
      and w': "w' = v\<lparr>space := space v @ encodeRune c\<rparr>"
      by (auto simp: andThen_eq_Inr)
    have "plainInv rw limit v" "word v = []"
      using addWord_inv [OF inv0 lim nar v] by simp_all
    then show ?thesis
      unfolding w' using c(1) sp by (rule space_rune_inv)
  next
    case wd
    let ?w1 = "w\<lparr>wroteBegin := True, word := word w @ encodeRune c\<rparr>"
    let ?wd = "runes (word w)"
    have nnl: "c \<noteq> 0x0A"
      using wd by auto
    have r: "runes (word w @ encodeRune c) = ?wd @ [c]"
      using d(4) c(1) by (simp add: runes_snoc)
    have pw: "PrintableRuneWidth rw (word ?w1) = int (width rw ?wd + rw c)"
      using d(7) c(2) by (subst PrintableRuneWidth_plain) (auto simp: r)
    define brk where "brk \<longleftrightarrow>
        lineLen w + int (length (space w)) + int (width rw ?wd + rw c) > limit
          \<and> int (width rw ?wd + rw c) < limit"
    have wr: "writeRune rw w c = (if brk then addNewLine ?w1 else Inr ?w1)"
      using writeRune_plain [of w c rw] cf wd c nnl pw by (simp add: Let_def brk_def)
    have base: "plainInv rw limit (?w1\<lparr>word := word w\<rparr>)"
      using inv0 by (simp add: plainInv_def plainCfg_def linesR_def)
    show ?thesis
    proof (cases brk)
      case False
      with wr step have w': "w' = ?w1" by simp
      have "noBreak rw limit (lineLen w + int (length (space w))) 0 (?wd @ [c])"
        using d(9) False by (simp add: noBreak_snoc brk_def)
      then show ?thesis
        unfolding w' plainInv_def
        using d wd c
        by (simp add: r linesR_def) (simp add: plainCfg_def utf8_append utf8_encodeRune)
    next
      case True
      have i1: "plainInv rw limit (w\<lparr>buf := buf w @ [CHR 0x0A], lineLen := 0, space := []\<rparr>)"
        using inv lim by (rule newline_inv)
      note e = plainInvD [OF i1]
      have "addNewLine ?w1 = Inr (?w1\<lparr>buf := buf ?w1 @ [CHR 0x0A], lineLen := 0, space := [],
          wroteBegin := False\<rparr>)"
        using cf by (intro addNewLine_plain [of limit]) (simp add: plainCfg_def)
      with wr step True have w': "w' = ?w1\<lparr>buf := buf ?w1 @ [CHR 0x0A], lineLen := 0,
          space := [], wroteBegin := False\<rparr>"
        by simp
      have lr: "linesR w' = linesR (w\<lparr>buf := buf w @ [CHR 0x0A], lineLen := 0, space := []\<rparr>)"
        by (simp add: w' linesR_def)
      show ?thesis
        unfolding plainInv_def lr
        using e d(4,7) wd c
        by (simp add: w' r noBreak_zero) (simp add: plainCfg_def utf8_append utf8_encodeRune)
    qed
  qed
qed

lemma writeRunes_inv:
  assumes "plainInv rw limit w" and "0 < limit" and "spacesNarrow rw"
    and "\<forall>c\<in>set cs. validRune c \<and> c \<noteq> 0x1B \<and> c \<noteq> 0x2D"
    and "writeRunes rw w cs = Inr w'"
  shows "plainInv rw limit w'"
  using assms
proof (induction cs arbitrary: w)
  case Nil
  then show ?case by simp
next
  case (Cons c cs)
  from Cons.prems(5) obtain v where v: "writeRune rw w c = Inr v"
    and r: "writeRunes rw v cs = Inr w'"
    by (auto simp: andThen_eq_Inr)
  have "plainInv rw limit v"
    using Cons.prems(1,2,3) _ _ _ v by (rule writeRune_inv) (use Cons.prems(4) in auto)
  then show ?case
    using Cons.prems(2,3) _ r by (rule Cons.IH) (use Cons.prems(4) in auto)
qed

section \<open>From bytes to runes and back\<close>

lemma decodeBytes_high: "0x80 \<le> b \<Longrightarrow> 0x80 \<le> fst (decodeBytes (b # bs))"
proof -
  assume h: "0x80 \<le> b"
  consider "b < 0xC2 \<or> 0xF4 < b" | "0xC2 \<le> b" "b < 0xE0"
    | "b = 0xE0" | "0xE0 < b" "b < 0xF0" | "b = 0xF0" | "0xF0 < b" "b \<le> 0xF4"
    by linarith
  then show ?thesis
  proof cases
    case 1
    with h show ?thesis by (auto simp: RuneError_def)
  next
    case 2
    then show ?thesis
      by (auto simp: RuneError_def Let_def lead2_mod cont_mod split: list.splits)
  next
    case 3
    then show ?thesis
      by (auto simp: RuneError_def Let_def cont_def cont_mod split: list.splits)
  next
    case 4
    then show ?thesis
      by (auto simp: RuneError_def Let_def cont_def lead3_mod cont_mod split: list.splits)
  next
    case 5
    then show ?thesis
      by (auto simp: RuneError_def Let_def cont_def cont_mod split: list.splits)
  next
    case 6
    then show ?thesis
      by (auto simp: RuneError_def Let_def cont_def lead4_mod cont_mod split: list.splits)
  qed
qed

lemma decodeBytes_ascii:
  assumes "decodeBytes (b # bs) = (c, n)" and "c < 0x80"
  shows "c = b"
proof (cases "b < 0x80")
  case True
  with assms show ?thesis by simp
next
  case False
  then have "0x80 \<le> fst (decodeBytes (b # bs))"
    by (intro decodeBytes_high) simp
  with assms show ?thesis by simp
qed

lemma rangeBytes_ascii_mem: "c \<in> set (rangeBytes bs) \<Longrightarrow> c < 0x80 \<Longrightarrow> c \<in> set bs"
proof (induction bs rule: rangeBytes.induct)
  case 1
  then show ?case by simp
next
  case (2 b bs)
  obtain c' n where d: "decodeBytes (b # bs) = (c', n)"
    by (cases "decodeBytes (b # bs)")
  from "2.prems"(1) d have "c = c' \<or> c \<in> set (rangeBytes (drop (n - 1) bs))"
    by simp
  then show ?case
  proof
    assume "c = c'"
    with d "2.prems"(2) have "c = b"
      using decodeBytes_ascii [of b bs c n] by simp
    then show ?thesis by simp
  next
    assume "c \<in> set (rangeBytes (drop (n - 1) bs))"
    then have "c \<in> set (drop (n - 1) bs)"
      using "2.IH" [OF d [symmetric]] "2.prems"(2) by simp
    then show ?thesis
      by (auto dest: in_set_dropD)
  qed
qed

lemma runes_ascii_mem:
  assumes "c \<in> set (runes s)" and "c < 0x80"
  shows "char_of c \<in> set s"
proof -
  have "c \<in> set (rangeBytes (map of_char s))"
    using assms(1) by (simp only: runes_def)
  then have "c \<in> set (map of_char s)"
    using assms(2) by (rule rangeBytes_ascii_mem)
  then have "c \<in> of_char ` set s"
    by (simp only: set_map)
  then obtain b where b: "b \<in> set s" "c = of_char b"
    by (rule imageE)
  have "char_of c = b"
    unfolding b(2) by (rule char_of_char)
  with b(1) show ?thesis by (simp only:)
qed

lemma encodeRune_no_newline: "c \<noteq> 0x0A \<Longrightarrow> CHR 0x0A \<notin> set (encodeRune c)"
proof
  assume c: "c \<noteq> 0x0A" and "CHR 0x0A \<in> set (encodeRune c)"
  then obtain b where b: "b \<in> set (encodeBytes c)" "char_of b = CHR 0x0A"
    by (auto simp: encodeRune_def)
  then have "b < 256"
    by (simp add: encodeBytes_byte)
  with b(2) have "b = 0x0A"
    by (simp add: char_of_eq_iff take_bit_eq_mod)
  with b(1) c show False
    by (auto simp: encodeBytes_def split: if_splits)
qed

lemma splitFrom_enc:
  "splitFrom (CHR 0x0A) (enc acc) (enc rs) = map enc (splitFrom 0x0A acc rs)"
proof (induction rs arbitrary: acc)
  case Nil
  show ?case by simp
next
  case (Cons c rs)
  show ?case
  proof (cases "c = 0x0A")
    case True
    have "enc (c # rs) = CHR 0x0A # enc rs"
      using True by (simp add: enc_def encodeRune_ascii)
    then show ?thesis
      using True Cons.IH [of "[]"] by simp
  next
    case False
    have "splitFrom (CHR 0x0A) (enc acc) (encodeRune c @ enc rs) =
        splitFrom (CHR 0x0A) (enc acc @ encodeRune c) (enc rs)"
      using encodeRune_no_newline [OF False] by (rule splitFrom_shift)
    then show ?thesis
      using False Cons.IH [of "acc @ [c]"] by (simp add: enc_def)
  qed
qed

lemma splitLines_utf8: "utf8 s \<Longrightarrow> splitLines s = map enc (splitFrom 0x0A [] (runes s))"
  using splitFrom_enc [of "[]" "runes s"] by (simp add: splitLines_def enc_runes)

lemma set_splitFrom: "l \<in> set (splitFrom nl acc xs) \<Longrightarrow> set l \<subseteq> set acc \<union> set xs"
proof (induction xs arbitrary: acc)
  case Nil
  then show ?case by simp
next
  case (Cons x xs)
  show ?case
  proof (cases "x = nl")
    case True
    with Cons.prems have "l = acc \<or> l \<in> set (splitFrom nl [] xs)" by simp
    then show ?thesis
      using Cons.IH [of "[]"] by auto
  next
    case False
    with Cons.prems have "l \<in> set (splitFrom nl (acc @ [x]) xs)" by simp
    then show ?thesis
      using Cons.IH [of "acc @ [x]"] by auto
  qed
qed

lemma lineWithin_enc:
  assumes "list_all validRune l" and "0x1B \<notin> set l"
  shows "lineWithin rw limit (enc l) = okLine rw limit l"
  using assms by (simp add: lineWithin_def okLine_def PrintableRuneWidth_plain runes_enc)

section \<open>Plain input\<close>

lemma plainInv_NewWriter: "0 < limit \<Longrightarrow> plainInv rw limit (NewWriter limit)"
  by (simp add: plainInv_def plainCfg_def linesR_def)

lemma plain_runes:
  assumes esc: "CHR 0x1B \<notin> set s" and bp: "CHR ''-'' \<notin> set s"
  shows "\<forall>c\<in>set (runes s). validRune c \<and> c \<noteq> 0x1B \<and> c \<noteq> 0x2D"
proof
  fix c assume c: "c \<in> set (runes s)"
  have "validRune c"
    using runes_valid [of s] c by (simp add: list_all_iff)
  moreover have "c \<noteq> 0x1B"
    using runes_ascii_mem [OF c] esc by auto
  moreover have "c \<noteq> 0x2D"
  proof
    assume "c = 0x2D"
    then have "char_of (0x2D::nat) \<in> set s"
      using runes_ascii_mem [OF c] by simp
    moreover have "char_of (0x2D::nat) = CHR ''-''"
      by (simp add: char_of_eq_iff)
    ultimately show False using bp by simp
  qed
  ultimately show "validRune c \<and> c \<noteq> 0x1B \<and> c \<noteq> 0x2D" by simp
qed

section \<open>Plain text of narrow runes is wrapped without a panic\<close>

lemma addWord_total:
  assumes inv: "plainInv rw limit w" and lim: "0 < limit" and nar: "\<forall>c. int (rw c) < limit"
  shows "\<exists>w'. addWord rw w = Inr w'"
proof (cases "word w = []")
  case True
  then show ?thesis by (simp add: addWord_def)
next
  case False
  note d = plainInvD [OF inv]
  note cf = plainCfgD [OF d(1)]
  from False d(4) obtain c cs where r: "runes (word w) = c # cs"
    using word_nonempty_runes [of "word w"] by (cases "runes (word w)") auto
  have "lineLen w + int (length (space w)) + int (rw c) \<le> limit \<or> limit \<le> int (rw c)"
    using d(9) unfolding r by (rule noBreak_first)
  with nar have "int (length (space w)) \<le> Limit w - lineLen w"
    using cf(1) by (auto simp: not_le [symmetric])
  then show ?thesis
    using False by (simp add: addWord_def addSpace_fits)
qed

lemma writeRune_total:
  assumes inv: "plainInv rw limit w" and lim: "0 < limit" and nar: "\<forall>c. int (rw c) < limit"
    and c: "c \<noteq> 0x1B" "c \<noteq> 0x2D"
  shows "\<exists>w'. writeRune rw w c = Inr w'"
proof -
  note d = plainInvD [OF inv]
  note cf = plainCfgD [OF d(1)]
  let ?w0 = "w\<lparr>wroteBegin := True\<rparr>"
  have inv0: "plainInv rw limit ?w0"
    using inv by simp
  obtain v where v: "addWord rw ?w0 = Inr v"
    using addWord_total [OF inv0 lim nar] by blast
  have cv: "plainCfg limit v"
    using v addWord_frame [OF v] cf by (simp add: plainCfg_def)
  have nlv: "\<exists>w'. addNewLine x = Inr w'" if "plainCfg limit x" for x
    using addNewLine_plain [OF that] by simp
  consider (nl) "c = 0x0A" | (sp) "IsSpace c" "c \<noteq> 0x0A" | (wd) "\<not> IsSpace c"
    by auto
  then show ?thesis
  proof cases
    case nl
    show ?thesis
    proof (cases "word w = []")
      case True
      let ?x = "(if lineLen w + int (length (space w)) > limit then ?w0\<lparr>lineLen := 0\<rparr>
                 else ?w0\<lparr>buf := buf w @ space w\<rparr>)\<lparr>space := []\<rparr>"
      have "writeRune rw w c = addNewLine ?x"
        using nl cf True by (simp add: writeRune_def addWord_def)
      moreover have "plainCfg limit ?x"
        using cf by (simp add: plainCfg_def)
      ultimately show ?thesis
        using nlv [of ?x] by simp
    next
      case False
      have "writeRune rw w c = andThen (addWord rw ?w0) addNewLine"
        using nl cf False by (simp add: writeRune_def)
      then show ?thesis
        using v nlv [OF cv] by simp
    qed
  next
    case sp
    have "writeRune rw w c =
        andThen (addWord rw ?w0) (\<lambda>w. Inr (w\<lparr>space := space w @ encodeRune c\<rparr>))"
      using sp c cf by (simp add: writeRune_def)
    then show ?thesis
      using v by simp
  next
    case wd
    let ?w1 = "w\<lparr>wroteBegin := True, word := word w @ encodeRune c\<rparr>"
    have nnl: "c \<noteq> 0x0A"
      using wd by auto
    have "plainCfg limit ?w1"
      using cf by (simp add: plainCfg_def)
    then obtain y where "addNewLine ?w1 = Inr y"
      using nlv by blast
    then show ?thesis
      using writeRune_plain [of w c rw] cf wd c nnl by (auto simp: Let_def)
  qed
qed

lemma writeRunes_total:
  assumes "plainInv rw limit w" and "0 < limit" and "spacesNarrow rw"
    and "\<forall>c. int (rw c) < limit"
    and "\<forall>c\<in>set cs. validRune c \<and> c \<noteq> 0x1B \<and> c \<noteq> 0x2D"
  shows "\<exists>w'. writeRunes rw w cs = Inr w'"
  using assms
proof (induction cs arbitrary: w)
  case Nil
  show ?case by simp
next
  case (Cons c cs)
  obtain v where v: "writeRune rw w c = Inr v"
    using writeRune_total [OF Cons.prems(1,2,4), of c] Cons.prems(5) by auto
  have "plainInv rw limit v"
    using Cons.prems(1,2,3) _ _ _ v by (rule writeRune_inv) (use Cons.prems(5) in auto)
  then have "\<exists>w'. writeRunes rw v cs = Inr w'"
    using Cons.prems(2,3,4) by (rule Cons.IH) (use Cons.prems(5) in auto)
  then show ?case
    using v by simp
qed

section \<open>Plain text of narrow runes has an output\<close>

lemma plain_returns:
  assumes lim: "0 < limit" and nar: "spacesNarrow rw" and thin: "\<forall>c. int (rw c) < limit"
    and esc: "CHR 0x1B \<notin> set s" and bp: "CHR ''-'' \<notin> set s"
  shows "\<exists>out. Bytes rw s limit = Inr out"
proof -
  note cs = plain_runes [OF esc bp]
  obtain w1 where wr: "writeRunes rw (NewWriter limit) (runes s) = Inr w1"
    using writeRunes_total [OF plainInv_NewWriter [OF lim] lim nar thin cs] by blast
  have i1: "plainInv rw limit w1"
    using plainInv_NewWriter [OF lim] lim nar cs wr by (rule writeRunes_inv)
  obtain w2 where "addWord rw w1 = Inr w2"
    using addWord_total [OF i1 lim thin] by blast
  then have "Close rw w1 = Inr w2"
    using plainCfgD(5) [OF plainInvD(1) [OF i1]] by (simp add: Close_def)
  then show ?thesis
    using wr lim by (simp add: Bytes_def Write_def)
qed

lemma cellWidth_narrow: "spacesNarrow cellWidth"
proof -
  have "cellWidth c \<le> length (encodeRune c)" for c
    using encodeRune_length [of c] by (simp add: cellWidth_def)
  then show ?thesis
    by (simp add: spacesNarrow_def)
qed

section \<open>The engine on text that is already wrapped\<close>

lemma PrintableRuneWidth_Nil [simp]: "PrintableRuneWidth rw [] = 0"
  by (simp add: PrintableRuneWidth_def)

lemma addWord_fits:
  assumes "word w \<noteq> []" and "int (length (space w)) \<le> Limit w - lineLen w"
  shows "addWord rw w =
    Inr (w\<lparr>lineLen := lineLen w + int (length (space w)) + PrintableRuneWidth rw (word w),
           buf := buf w @ space w @ word w, space := [], word := []\<rparr>)"
  using assms by (simp add: addWord_def addSpace_fits)

lemma nl_step:
  assumes cf: "plainCfg limit u" and fit: "int (length (space u)) \<le> limit - lineLen u"
  shows "writeRune rw u 0x0A =
    Inr (u\<lparr>wroteBegin := False, buf := buf u @ space u @ word u @ [CHR 0x0A], lineLen := 0,
           space := [], word := []\<rparr>)"
proof -
  note c = plainCfgD [OF cf]
  let ?u0 = "u\<lparr>wroteBegin := True\<rparr>"
  show ?thesis
  proof (cases "word u = []")
    case True
    let ?x = "?u0\<lparr>buf := buf u @ space u, space := []\<rparr>"
    have "writeRune rw u 0x0A = addNewLine ?x"
      using c True fit by (simp add: writeRune_def addWord_def)
    also have "\<dots> = Inr (?x\<lparr>buf := buf ?x @ [CHR 0x0A], lineLen := 0, space := [],
        wroteBegin := False\<rparr>)"
      using c by (intro addNewLine_plain [of limit]) (simp add: plainCfg_def)
    also have "?x\<lparr>buf := buf ?x @ [CHR 0x0A], lineLen := 0, space := [], wroteBegin := False\<rparr> =
        u\<lparr>wroteBegin := False, buf := buf u @ space u @ word u @ [CHR 0x0A], lineLen := 0,
          space := [], word := []\<rparr>"
      using True by (intro WordWrap.equality) simp_all
    finally show ?thesis .
  next
    case False
    have "writeRune rw u 0x0A = andThen (addWord rw ?u0) addNewLine"
      using c False by (simp add: writeRune_def)
    also have "addWord rw ?u0 =
        Inr (?u0\<lparr>lineLen := lineLen u + int (length (space u)) + PrintableRuneWidth rw (word u),
           buf := buf u @ space u @ word u, space := [], word := []\<rparr>)"
      using False fit c(1) addWord_fits [of ?u0 rw] by simp
    finally show ?thesis
      using c by (simp add: addNewLine_def)
  qed
qed

lemma sp_step0:
  assumes cf: "plainCfg limit v" and "word v = []" and "IsSpace c" and "c \<noteq> 0x0A"
  shows "writeRune rw v c = Inr (v\<lparr>wroteBegin := True, space := space v @ encodeRune c\<rparr>)"
proof -
  have "c \<noteq> 0x1B"
    using assms(3) by auto
  then show ?thesis
    using assms plainCfgD [OF cf] by (simp add: writeRune_def addWord_def)
qed

lemma sp_run0:
  assumes "plainCfg limit v" and "word v = []" and "\<forall>c\<in>set sp. IsSpace c \<and> c \<noteq> 0x0A"
  shows "writeRunes rw v sp =
    Inr (if sp = [] then v else v\<lparr>wroteBegin := True, space := space v @ enc sp\<rparr>)"
  using assms
proof (induction sp arbitrary: v)
  case Nil
  show ?case by simp
next
  case (Cons c sp)
  let ?v = "v\<lparr>wroteBegin := True, space := space v @ encodeRune c\<rparr>"
  have s: "writeRune rw v c = Inr ?v"
    using Cons.prems by (intro sp_step0) auto
  have "writeRunes rw ?v sp =
      Inr (if sp = [] then ?v else ?v\<lparr>wroteBegin := True, space := space ?v @ enc sp\<rparr>)"
    using Cons.prems by (intro Cons.IH) (auto simp: plainCfg_def)
  then show ?case
    by (simp add: s enc_def)
qed

lemma sp_run:
  assumes cf: "plainCfg limit u" and fit: "int (length (space u)) \<le> limit - lineLen u"
    and pend: "word u = [] \<longrightarrow> space u = []"
    and sp: "\<forall>c\<in>set sp. IsSpace c \<and> c \<noteq> 0x0A" and ne: "sp \<noteq> []"
  shows "writeRunes rw u sp =
    Inr (u\<lparr>wroteBegin := True, buf := buf u @ space u @ word u,
           lineLen := lineLen u + int (length (space u)) + PrintableRuneWidth rw (word u),
           space := enc sp, word := []\<rparr>)"
proof (cases "word u = []")
  case True
  have "u\<lparr>wroteBegin := True, space := space u @ enc sp\<rparr> =
      u\<lparr>wroteBegin := True, buf := buf u @ space u @ word u,
        lineLen := lineLen u + int (length (space u)) + PrintableRuneWidth rw (word u),
        space := enc sp, word := []\<rparr>"
    using True pend by (intro WordWrap.equality) simp_all
  then show ?thesis
    using sp_run0 [OF cf True sp, of rw] ne by simp
next
  case False
  note c = plainCfgD [OF cf]
  from ne obtain c0 cs where s: "sp = c0 # cs"
    by (cases sp) auto
  let ?u0 = "u\<lparr>wroteBegin := True\<rparr>"
  let ?v = "?u0\<lparr>lineLen := lineLen u + int (length (space u)) + PrintableRuneWidth rw (word u),
           buf := buf u @ space u @ word u, space := [], word := []\<rparr>"
  have "c0 \<noteq> 0x1B"
    using sp s by auto
  then have "writeRune rw u c0 =
      andThen (addWord rw ?u0) (\<lambda>w. Inr (w\<lparr>space := space w @ encodeRune c0\<rparr>))"
    using sp c by (simp add: s writeRune_def)
  moreover have "addWord rw ?u0 = Inr ?v"
    using False fit c(1) addWord_fits [of ?u0 rw] by simp
  ultimately have st: "writeRune rw u c0 = Inr (?v\<lparr>space := encodeRune c0\<rparr>)"
    by simp
  have "writeRunes rw (?v\<lparr>space := encodeRune c0\<rparr>) cs =
      Inr (if cs = [] then ?v\<lparr>space := encodeRune c0\<rparr>
           else ?v\<lparr>space := encodeRune c0\<rparr>\<lparr>wroteBegin := True, space := encodeRune c0 @ enc cs\<rparr>)"
    using sp_run0 [of limit "?v\<lparr>space := encodeRune c0\<rparr>" cs rw] c sp
    by (simp add: s plainCfg_def)
  then show ?thesis
    by (simp add: s st enc_def)
qed

lemma wd_run:
  assumes "plainCfg limit v" and "word v = enc wd0"
    and "list_all validRune (wd0 @ wd)"
    and "\<forall>c\<in>set (wd0 @ wd). \<not> IsSpace c \<and> c \<noteq> 0x1B \<and> c \<noteq> 0x2D"
    and "noBreak rw limit (lineLen v + int (length (space v))) (width rw wd0) wd"
  shows "writeRunes rw v wd =
    Inr (if wd = [] then v else v\<lparr>wroteBegin := True, word := enc (wd0 @ wd)\<rparr>)"
  using assms
proof (induction wd arbitrary: v wd0)
  case Nil
  show ?case by simp
next
  case (Cons c wd)
  note cf = plainCfgD [OF Cons.prems(1)]
  let ?v = "v\<lparr>wroteBegin := True, word := enc (wd0 @ [c])\<rparr>"
  have cls: "c \<noteq> 0x1B" "\<not> IsSpace c" "c \<noteq> 0x2D" "c \<noteq> 0x0A"
    using Cons.prems(4) by auto
  have pw: "PrintableRuneWidth rw (enc (wd0 @ [c])) = int (width rw wd0 + rw c)"
  proof -
    have "runes (enc (wd0 @ [c])) = wd0 @ [c]"
      using Cons.prems(3) by (intro runes_enc) simp
    moreover have "0x1B \<notin> set (wd0 @ [c])"
      using Cons.prems(4) by auto
    ultimately show ?thesis
      by (simp add: PrintableRuneWidth_plain)
  qed
  have "writeRune rw v c =
    (let w = v\<lparr>wroteBegin := True, word := word v @ encodeRune c\<rparr> in
     if lineLen w + int (length (space w)) + PrintableRuneWidth rw (word w) > Limit w
        \<and> PrintableRuneWidth rw (word w) < Limit w
     then addNewLine w else Inr w)"
    using cf cls by (intro writeRune_plain) simp_all
  then have st: "writeRune rw v c = Inr ?v"
    using Cons.prems(2,5) cf(1) pw by (auto simp: Let_def)
  have "writeRunes rw ?v wd =
      Inr (if wd = [] then ?v else ?v\<lparr>wroteBegin := True, word := enc ((wd0 @ [c]) @ wd)\<rparr>)"
    using Cons.prems by (intro Cons.IH) (auto simp: plainCfg_def)
  then show ?case
    by (simp add: st)
qed


lemma blank_line:
  assumes cf: "plainCfg limit v" and fresh: "word v = []" "space v = []" "lineLen v = 0"
    and k: "int k \<le> limit"
  shows "writeRunes rw v (replicate k 0x20 @ [0x0A]) =
    Inr (v\<lparr>wroteBegin := False, buf := buf v @ replicate k CHR '' '' @ [CHR 0x0A]\<rparr>)"
proof -
  define v1 where "v1 = (if k = 0 then v else v\<lparr>wroteBegin := True, space := replicate k CHR '' ''\<rparr>)"
  have "writeRunes rw v (replicate k 0x20) = Inr v1"
    using sp_run0 [OF cf fresh(1), of "replicate k 0x20" rw] fresh(2)
    by (simp add: v1_def enc_replicate_ascii)
  moreover have "writeRune rw v1 0x0A =
      Inr (v1\<lparr>wroteBegin := False, buf := buf v1 @ space v1 @ word v1 @ [CHR 0x0A], lineLen := 0,
           space := [], word := []\<rparr>)"
    using cf fresh k by (intro nl_step [of limit]) (auto simp: v1_def plainCfg_def)
  moreover have "v1\<lparr>wroteBegin := False, buf := buf v1 @ space v1 @ word v1 @ [CHR 0x0A],
      lineLen := 0, space := [], word := []\<rparr> =
      v\<lparr>wroteBegin := False, buf := buf v @ replicate k CHR '' '' @ [CHR 0x0A]\<rparr>"
    using fresh by (intro WordWrap.equality) (simp_all add: v1_def)
  ultimately show ?thesis
    by (simp add: writeRunes_append)
qed

lemma blank_lines:
  assumes cf: "plainCfg limit v" and fresh: "word v = []" "space v = []" "lineLen v = 0"
    and k: "int k \<le> limit"
  shows "writeRunes rw v (concat (replicate q (replicate k 0x20 @ [0x0A]))) =
    Inr (if q = 0 then v else
      v\<lparr>wroteBegin := False,
        buf := buf v @ concat (replicate q (replicate k CHR '' '' @ [CHR 0x0A]))\<rparr>)"
  using cf fresh
proof (induction q arbitrary: v)
  case 0
  show ?case by simp
next
  case (Suc q)
  let ?v = "v\<lparr>wroteBegin := False, buf := buf v @ replicate k CHR '' '' @ [CHR 0x0A]\<rparr>"
  have one: "writeRunes rw v (replicate k 0x20 @ [0x0A]) = Inr ?v"
    using Suc.prems k by (intro blank_line) simp_all
  have "writeRunes rw ?v (concat (replicate q (replicate k 0x20 @ [0x0A]))) =
    Inr (if q = 0 then ?v else
      ?v\<lparr>wroteBegin := False,
        buf := buf ?v @ concat (replicate q (replicate k CHR '' '' @ [CHR 0x0A]))\<rparr>)"
    using Suc.prems by (intro Suc.IH) (simp_all add: plainCfg_def)
  then show ?case
    using one writeRunes_append [of rw v "replicate k 0x20 @ [0x0A]"
        "concat (replicate q (replicate k 0x20 @ [0x0A]))"]
    by simp
qed

lemma concat_shift:
  "concat (replicate q (nl # x)) @ [nl] = nl # concat (replicate q (x @ [nl]))"
  by (induction q) simp_all

lemma fill_regroup:
  assumes "0 < q \<or> 0 < r"
  shows "fill nl sp first q l r =
    replicate first sp @ [nl]
      @ concat (replicate (if 0 < r then q else q - 1) (replicate l sp @ [nl]))
      @ replicate (if 0 < r then r else l) sp"
proof (cases "0 < r")
  case True
  have "concat (replicate q (nl # replicate l sp)) @ nl # replicate r sp =
      (concat (replicate q (nl # replicate l sp)) @ [nl]) @ replicate r sp"
    by simp
  also have "\<dots> = nl # concat (replicate q (replicate l sp @ [nl])) @ replicate r sp"
    by (simp only: concat_shift) simp
  finally show ?thesis
    using True by (simp add: fill_def)
next
  case False
  with assms obtain q' where q: "q = Suc q'"
    by (cases q) auto
  have "replicate (Suc q') (nl # replicate l sp) =
      replicate q' (nl # replicate l sp) @ [nl # replicate l sp]"
    by (simp add: replicate_append_same)
  then have "concat (replicate (Suc q') (nl # replicate l sp)) =
      (concat (replicate q' (nl # replicate l sp)) @ [nl]) @ replicate l sp"
    by (simp del: replicate_Suc)
  also have "\<dots> = nl # concat (replicate q' (replicate l sp @ [nl])) @ replicate l sp"
    by (simp only: concat_shift) simp
  finally show ?thesis
    using False by (simp add: fill_def q del: replicate_Suc)
qed

lemma syncD:
  assumes "sync rw limit w u"
  shows "plainCfg limit u" "buf u @ space u @ word u = buf w"
    "word u = [] \<Longrightarrow> last (linesR w) = []"
    "last (linesR w) = [] \<Longrightarrow> word u = [] \<and> space u = [] \<and> lineLen u = 0"
    "int (length (space u)) \<le> limit - lineLen u"
    "lineLen w = pending rw u \<or> (limit \<le> lineLen w \<and> limit \<le> pending rw u)"
  using assms by (simp_all add: sync_def)

lemma sync_pend: "sync rw limit w u \<Longrightarrow> word u = [] \<longrightarrow> space u = []"
  by (auto simp: sync_def)

lemma last_split_word:
  "nl \<notin> set ys \<Longrightarrow> ys \<noteq> [] \<Longrightarrow> last (splitFrom nl acc (xs @ ys)) \<noteq> []"
  by (simp add: last_split_plain)

lemma sync_newline:
  assumes s: "sync rw limit w u" and lim: "0 < limit" and u8: "utf8 (buf w)"
    and w': "buf w' = buf w @ [CHR 0x0A]" "lineLen w' = 0"
  shows "\<exists>u'. writeRunes rw u [0x0A] = Inr u' \<and> sync rw limit w' u'"
proof -
  note d = syncD [OF s]
  let ?u' = "u\<lparr>wroteBegin := False, buf := buf u @ space u @ word u @ [CHR 0x0A], lineLen := 0,
           space := [], word := []\<rparr>"
  have "writeRune rw u 0x0A = Inr ?u'"
    using d(1,5) by (rule nl_step)
  then have run: "writeRunes rw u [0x0A] = Inr ?u'"
    by simp
  have "last (linesR w') = []"
    using u8 by (simp add: linesR_def w' runes_append last_split_nl)
  then have "sync rw limit w' ?u'"
    using d lim by (simp add: sync_def plainCfg_def w' pending_def)
  with run show ?thesis by blast
qed

lemma after_spaces:
  assumes inv: "plainInv rw limit w" and st: "atStart w" and s: "sync rw limit w u"
  shows "\<exists>u1. writeRunes rw u (runes (space w)) = Inr u1 \<and> plainCfg limit u1
    \<and> buf u1 = buf w \<and> lineLen u1 = pending rw u \<and> space u1 = space w \<and> word u1 = []"
proof (cases "space w = []")
  case True
  then have "last (linesR w) = []"
    using st by (simp add: atStart_def)
  then have "word u = [] \<and> space u = [] \<and> lineLen u = 0"
    by (rule syncD(4) [OF s])
  then show ?thesis
    using True syncD(1,2) [OF s] by (simp add: pending_def)
next
  case False
  note d = plainInvD [OF inv]
  have ne: "runes (space w) \<noteq> []"
    using d(3) False by (rule word_nonempty_runes)
  have "writeRunes rw u (runes (space w)) =
    Inr (u\<lparr>wroteBegin := True, buf := buf u @ space u @ word u,
           lineLen := lineLen u + int (length (space u)) + PrintableRuneWidth rw (word u),
           space := enc (runes (space w)), word := []\<rparr>)"
    using syncD(1,5) [OF s] sync_pend [OF s] d(6) ne by (rule sp_run)
  then show ?thesis
    using syncD(1,2) [OF s] d(3) by (simp add: pending_def enc_runes plainCfg_def)
qed

lemma sync_spaces_newline:
  assumes inv: "plainInv rw limit w" and st: "atStart w" and lz: "lineZero w"
    and s: "sync rw limit w u" and lim: "0 < limit"
    and fit: "lineLen w + int (length (space w)) \<le> limit"
    and w': "buf w' = buf w @ space w @ [CHR 0x0A]" "lineLen w' = 0"
  shows "\<exists>u'. writeRunes rw u (runes (space w) @ [0x0A]) = Inr u' \<and> sync rw limit w' u'"
proof -
  note d = plainInvD [OF inv]
  obtain u1 where u1: "writeRunes rw u (runes (space w)) = Inr u1" "plainCfg limit u1"
      "buf u1 = buf w" "lineLen u1 = pending rw u" "space u1 = space w" "word u1 = []"
    using after_spaces [OF inv st s] by blast
  have eq: "space w \<noteq> [] \<Longrightarrow> lineLen w = pending rw u"
  proof -
    assume "space w \<noteq> []"
    then have "0 < int (length (space w))" by simp
    with fit have "lineLen w < limit" by linarith
    with syncD(6) [OF s] show ?thesis by linarith
  qed
  have fit1: "int (length (space u1)) \<le> limit - lineLen u1"
  proof (cases "space w = []")
    case True
    then have "last (linesR w) = []"
      using st by (simp add: atStart_def)
    then have "word u = [] \<and> space u = [] \<and> lineLen u = 0"
      by (rule syncD(4) [OF s])
    then show ?thesis
      using True lim by (simp add: u1 pending_def)
  next
    case False
    then show ?thesis
      using eq fit by (simp add: u1)
  qed
  let ?u' = "u1\<lparr>wroteBegin := False, buf := buf u1 @ space u1 @ word u1 @ [CHR 0x0A],
      lineLen := 0, space := [], word := []\<rparr>"
  have "writeRune rw u1 0x0A = Inr ?u'"
    using u1(2) fit1 by (rule nl_step)
  then have run: "writeRunes rw u (runes (space w) @ [0x0A]) = Inr ?u'"
    by (simp add: writeRunes_append u1(1))
  have "runes (buf w') = (runes (buf w) @ runes (space w)) @ [0x0A]"
    using d(2,3) by (simp add: w' runes_append utf8_append)
  then have "last (linesR w') = []"
    unfolding linesR_def by (simp only: last_split_nl)
  then have "sync rw limit w' ?u'"
    using u1 lim by (simp add: sync_def plainCfg_def w' pending_def)
  with run show ?thesis by blast
qed

lemma sync_flush_fits:
  assumes inv: "plainInv rw limit w" and st: "atStart w" and lz: "lineZero w"
    and s: "sync rw limit w u" and lim: "0 < limit"
    and ne: "word w \<noteq> []"
    and fit: "int (length (space w)) \<le> limit - lineLen w"
    and w': "buf w' = buf w @ space w @ word w"
      "lineLen w' = lineLen w + int (length (space w)) + PrintableRuneWidth rw (word w)"
  shows "(\<exists>u'. writeRunes rw u (runes (space w) @ runes (word w)) = Inr u'
      \<and> sync rw limit w' u') \<and> last (linesR w') \<noteq> []"
proof -
  note d = plainInvD [OF inv]
  let ?wd = "runes (word w)"
  obtain u1 where u1: "writeRunes rw u (runes (space w)) = Inr u1" "plainCfg limit u1"
      "buf u1 = buf w" "lineLen u1 = pending rw u" "space u1 = space w" "word u1 = []"
    using after_spaces [OF inv st s] by blast
  have wdne: "?wd \<noteq> []"
    using d(4) ne by (rule word_nonempty_runes)
  have eq: "lineLen w = pending rw u"
  proof (rule ccontr)
    assume "lineLen w \<noteq> pending rw u"
    with syncD(6) [OF s] have over: "limit \<le> lineLen w" by simp
    with fit have "int (length (space w)) \<le> 0" by linarith
    then have "space w = []" by simp
    then have "last (linesR w) = []"
      using st by (simp add: atStart_def)
    then have "lineLen w = 0"
      using lz by (simp add: lineZero_def)
    with over lim show False by simp
  qed
  let ?u' = "u1\<lparr>wroteBegin := True, word := enc ([] @ ?wd)\<rparr>"
  have "writeRunes rw u1 ?wd = Inr (if ?wd = [] then u1 else ?u')"
  proof (rule wd_run [OF u1(2)])
    show "word u1 = enc []" by (simp add: u1)
    show "list_all validRune ([] @ ?wd)" by (simp add: runes_valid)
    show "\<forall>c\<in>set ([] @ ?wd). \<not> IsSpace c \<and> c \<noteq> 0x1B \<and> c \<noteq> 0x2D"
      using d(7) by simp
    show "noBreak rw limit (lineLen u1 + int (length (space u1))) (width rw []) ?wd"
      using d(9) eq by (simp add: u1)
  qed
  then have run: "writeRunes rw u (runes (space w) @ ?wd) = Inr ?u'"
    using wdne by (simp add: writeRunes_append u1(1))
  have "runes (buf w') = runes (buf w) @ (runes (space w) @ ?wd)"
    using d(2,3) by (simp add: w' runes_append utf8_append)
  moreover have "0x0A \<notin> set (runes (space w) @ ?wd)"
    using d(6,7) by auto
  then have "last (splitFrom 0x0A [] (runes (buf w) @ (runes (space w) @ ?wd))) \<noteq> []"
    using wdne by (intro last_split_word) simp_all
  ultimately have ll: "last (linesR w') \<noteq> []"
    unfolding linesR_def by (simp only:) simp
  then have "sync rw limit w' ?u'"
    using u1 d(4) ne fit eq
    by (simp add: sync_def plainCfg_def w' pending_def enc_runes)
  with run ll show ?thesis by blast
qed

lemma sync_flush_overflow:
  assumes inv: "plainInv rw limit w" and s: "sync rw limit w u" and lim: "0 < limit"
    and ne: "word w \<noteq> []"
    and Lle: "lineLen w \<le> limit"
    and over: "limit - lineLen w < int (length (space w))"
    and qr: "0 < q \<or> 0 < r" and l: "l = nat limit" and r: "int r < limit"
    and first: "first = nat (limit - lineLen w)"
    and w': "buf w' = buf w @ fill (CHR 0x0A) CHR '' '' first q l r @ word w"
      "lineLen w' = int r + PrintableRuneWidth rw (word w)"
  shows "(\<exists>u'. writeRunes rw u (fill 0x0A 0x20 first q l r @ runes (word w)) = Inr u'
    \<and> sync rw limit w' u') \<and> last (linesR w') \<noteq> []"
proof -
  note d = plainInvD [OF inv]
  note e = syncD [OF s]
  let ?wd = "runes (word w)"
  let ?W = "int (width rw ?wd)"
  define q' where "q' = (if 0 < r then q else q - 1)"
  define k where "k = (if 0 < r then r else l)"
  have kpos: "0 < k" and kle: "int k \<le> limit"
    using lim r by (auto simp: k_def l)
  have wdne: "?wd \<noteq> []"
    using d(4) ne by (rule word_nonempty_runes)
  have pw: "PrintableRuneWidth rw (word w) = ?W"
    using d(7) by (intro PrintableRuneWidth_plain) auto
  have big: "limit \<le> ?W"
    using noBreak_last [OF d(9) wdne] over d(8) by simp
  have fr: "fill (0x0A::nat) 0x20 first q l r =
      (replicate first 0x20 @ [0x0A]) @ concat (replicate q' (replicate l 0x20 @ [0x0A]))
        @ replicate k 0x20"
    using fill_regroup [OF qr, of "0x0A::nat" "0x20" first l] by (simp add: q'_def k_def)
  have fc: "fill (CHR 0x0A) CHR '' '' first q l r =
      replicate first CHR '' '' @ [CHR 0x0A]
        @ concat (replicate q' (replicate l CHR '' '' @ [CHR 0x0A])) @ replicate k CHR '' ''"
    using fill_regroup [OF qr, of "CHR 0x0A" "CHR '' ''" first l] by (simp add: q'_def k_def)
  have "\<exists>u2. writeRunes rw u (replicate first 0x20 @ [0x0A]) = Inr u2 \<and> plainCfg limit u2
      \<and> buf u2 = buf w @ replicate first CHR '' '' @ [CHR 0x0A]
      \<and> space u2 = [] \<and> word u2 = [] \<and> lineLen u2 = 0"
  proof (cases "first = 0")
    case True
    have "writeRune rw u 0x0A = Inr (u\<lparr>wroteBegin := False,
        buf := buf u @ space u @ word u @ [CHR 0x0A], lineLen := 0, space := [], word := []\<rparr>)"
      using e(1,5) by (rule nl_step)
    then show ?thesis
      using True e(1,2) by (simp add: plainCfg_def)
  next
    case False
    then have lt: "lineLen w < limit"
      by (simp add: first)
    with e(6) have eq: "lineLen w = pending rw u" by linarith
    let ?u1 = "u\<lparr>wroteBegin := True, buf := buf u @ space u @ word u,
           lineLen := lineLen u + int (length (space u)) + PrintableRuneWidth rw (word u),
           space := enc (replicate first 0x20), word := []\<rparr>"
    have r1: "writeRunes rw u (replicate first 0x20) = Inr ?u1"
      using e(1,5) sync_pend [OF s] by (rule sp_run) (use False in simp_all)
    have c1: "plainCfg limit ?u1"
      using e(1) by (simp add: plainCfg_def)
    have "int (length (space ?u1)) \<le> limit - lineLen ?u1"
      using eq lt by (simp add: enc_replicate_ascii pending_def first)
    with c1 have "writeRune rw ?u1 0x0A = Inr (?u1\<lparr>wroteBegin := False,
        buf := buf ?u1 @ space ?u1 @ word ?u1 @ [CHR 0x0A], lineLen := 0, space := [],
        word := []\<rparr>)"
      by (rule nl_step)
    then show ?thesis
      using r1 e(1,2) by (simp add: writeRunes_append plainCfg_def enc_replicate_ascii)
  qed
  then obtain u2 where u2: "writeRunes rw u (replicate first 0x20 @ [0x0A]) = Inr u2"
      "plainCfg limit u2" "buf u2 = buf w @ replicate first CHR '' '' @ [CHR 0x0A]"
      "space u2 = []" "word u2 = []" "lineLen u2 = 0"
    by blast
  define u3 where "u3 = (if q' = 0 then u2 else
      u2\<lparr>wroteBegin := False,
        buf := buf u2 @ concat (replicate q' (replicate l CHR '' '' @ [CHR 0x0A]))\<rparr>)"
  have r3: "writeRunes rw u2 (concat (replicate q' (replicate l 0x20 @ [0x0A]))) = Inr u3"
    unfolding u3_def using u2(2,5,4,6) by (rule blank_lines) (use lim in \<open>simp add: l\<close>)
  have u3: "plainCfg limit u3"
      "buf u3 = buf u2 @ concat (replicate q' (replicate l CHR '' '' @ [CHR 0x0A]))"
      "space u3 = []" "word u3 = []" "lineLen u3 = 0"
    using u2 by (simp_all add: u3_def plainCfg_def)
  let ?u4 = "u3\<lparr>wroteBegin := True, space := space u3 @ enc (replicate k 0x20)\<rparr>"
  have "writeRunes rw u3 (replicate k 0x20) = Inr (if replicate k (0x20::nat) = [] then u3 else ?u4)"
    using u3(1,4) by (rule sp_run0) simp
  then have r4: "writeRunes rw u3 (replicate k 0x20) = Inr ?u4"
    using kpos by simp
  have c4: "plainCfg limit ?u4"
    using u3(1) by (simp add: plainCfg_def)
  let ?u5 = "?u4\<lparr>wroteBegin := True, word := enc ([] @ ?wd)\<rparr>"
  have "writeRunes rw ?u4 ?wd = Inr (if ?wd = [] then ?u4 else ?u5)"
  proof (rule wd_run [OF c4])
    show "word ?u4 = enc []" by (simp add: u3)
    show "list_all validRune ([] @ ?wd)" by (simp add: runes_valid)
    show "\<forall>c\<in>set ([] @ ?wd). \<not> IsSpace c \<and> c \<noteq> 0x1B \<and> c \<noteq> 0x2D"
      using d(7) by simp
    have "noBreak rw limit (lineLen ?u4 + int (length (space ?u4))) 0 ?wd"
      using d(9) by (rule noBreak_over) (use over in linarith)
    then show "noBreak rw limit (lineLen ?u4 + int (length (space ?u4))) (width rw []) ?wd"
      by simp
  qed
  then have r5: "writeRunes rw ?u4 ?wd = Inr ?u5"
    using wdne by simp
  have s1: "writeRunes rw u ((replicate first 0x20 @ [0x0A]) @ xs) = writeRunes rw u2 xs" for xs
    by (simp only: writeRunes_append [of rw u "replicate first 0x20 @ [0x0A]"] u2(1) andThen_Inr)
  have s2: "writeRunes rw u2 (concat (replicate q' (replicate l 0x20 @ [0x0A])) @ xs) =
      writeRunes rw u3 xs" for xs
    by (simp only: writeRunes_append [of rw u2 "concat (replicate q' (replicate l 0x20 @ [0x0A]))"]
        r3 andThen_Inr)
  have s3: "writeRunes rw u3 (replicate k 0x20 @ xs) = writeRunes rw ?u4 xs" for xs
    by (simp only: writeRunes_append [of rw u3 "replicate k 0x20"] r4 andThen_Inr)
  have "fill 0x0A 0x20 first q l r @ ?wd =
      (replicate first 0x20 @ [0x0A]) @ (concat (replicate q' (replicate l 0x20 @ [0x0A]))
        @ (replicate k 0x20 @ ?wd))"
    by (simp add: fr)
  then have run: "writeRunes rw u (fill 0x0A 0x20 first q l r @ ?wd) = Inr ?u5"
    by (simp only: s1 s2 s3 r5)
  have rb: "runes (buf w') = (runes (buf w) @ fill 0x0A 0x20 first q l r) @ ?wd"
    using d(2,4) by (simp add: w' runes_append utf8_append)
  have "0x0A \<notin> set ?wd"
    using d(7) by auto
  then have "last (splitFrom 0x0A [] ((runes (buf w) @ fill 0x0A 0x20 first q l r) @ ?wd)) \<noteq> []"
    using wdne by (rule last_split_word)
  then have ll: "last (linesR w') \<noteq> []"
    unfolding linesR_def rb .
  have cnt: "lineLen w' = pending rw ?u5 \<or> (limit \<le> lineLen w' \<and> limit \<le> pending rw ?u5)"
    using big d(4) by (auto simp: w' pw pending_def u3 enc_replicate_ascii enc_runes k_def)
  have "sync rw limit w' ?u5"
    unfolding sync_def
    using c4 ll cnt kle d(4) ne
    by (simp add: plainCfg_def u3 u2 w' fc enc_replicate_ascii enc_runes)
  with run ll show ?thesis by blast
qed

lemma sync_wroteBegin [simp]: "sync rw limit (w\<lparr>wroteBegin := b\<rparr>) u = sync rw limit w u"
  by (simp add: sync_def linesR_def)

lemma rewrapped_wroteBegin [simp]:
  "rewrapped rw limit (w\<lparr>wroteBegin := b\<rparr>) = rewrapped rw limit w"
  by (simp add: rewrapped_def)

lemma atStart_wroteBegin [simp]: "atStart (w\<lparr>wroteBegin := b\<rparr>) = atStart w"
  by (simp add: atStart_def linesR_def)

lemma lineZero_wroteBegin [simp]: "lineZero (w\<lparr>wroteBegin := b\<rparr>) = lineZero w"
  by (simp add: lineZero_def linesR_def)

lemma rewrapped_extend:
  assumes "rewrapped rw limit w" and "runes (buf w') = runes (buf w) @ xs"
    and "\<And>u. sync rw limit w u \<Longrightarrow> \<exists>u'. writeRunes rw u xs = Inr u' \<and> sync rw limit w' u'"
  shows "rewrapped rw limit w'"
proof -
  from assms(1) obtain u where u: "writeRunes rw (NewWriter limit) (runes (buf w)) = Inr u"
      "sync rw limit w u"
    by (auto simp: rewrapped_def)
  from assms(3) [OF u(2)] obtain u' where u': "writeRunes rw u xs = Inr u'" "sync rw limit w' u'"
    by blast
  have "writeRunes rw (NewWriter limit) (runes (buf w')) = Inr u'"
    by (simp add: assms(2) writeRunes_append u(1) u'(1))
  with u'(2) show ?thesis
    by (auto simp: rewrapped_def)
qed

lemma rewrapped_same:
  "rewrapped rw limit w \<Longrightarrow> buf w' = buf w \<Longrightarrow> lineLen w' = lineLen w \<Longrightarrow>
   rewrapped rw limit w'"
  by (simp add: rewrapped_def sync_def linesR_def)

lemma stable_newline:
  assumes "rewrapped rw limit w" and lim: "0 < limit" and u8: "utf8 (buf w)"
    and w': "buf w' = buf w @ [CHR 0x0A]" "lineLen w' = 0"
  shows "rewrapped rw limit w'" "atStart w'" "lineZero w'"
proof -
  have r: "runes (buf w') = runes (buf w) @ [0x0A]"
    using u8 by (simp add: w' runes_append)
  show "rewrapped rw limit w'"
    using assms(1) r
  proof (rule rewrapped_extend)
    fix u
    assume "sync rw limit w u"
    then show "\<exists>u'. writeRunes rw u [0x0A] = Inr u' \<and> sync rw limit w' u'"
      using lim u8 w' by (rule sync_newline)
  qed
  have "last (linesR w') = []"
    by (simp add: linesR_def r last_split_nl)
  then show "atStart w'" "lineZero w'"
    by (simp_all add: atStart_def lineZero_def w')
qed

lemma stable_spaces_newline:
  assumes inv: "plainInv rw limit w" and st: "atStart w" and lz: "lineZero w"
    and rw: "rewrapped rw limit w" and lim: "0 < limit"
    and fit: "lineLen w + int (length (space w)) \<le> limit"
    and w': "buf w' = buf w @ space w @ [CHR 0x0A]" "lineLen w' = 0"
  shows "rewrapped rw limit w'" "atStart w'" "lineZero w'"
proof -
  note d = plainInvD [OF inv]
  have r: "runes (buf w') = runes (buf w) @ (runes (space w) @ [0x0A])"
    using d(2,3) by (simp add: w' runes_append utf8_append)
  show "rewrapped rw limit w'"
    using rw r
  proof (rule rewrapped_extend)
    fix u
    assume "sync rw limit w u"
    with inv st lz
    show "\<exists>u'. writeRunes rw u (runes (space w) @ [0x0A]) = Inr u' \<and> sync rw limit w' u'"
      using lim fit w' by (rule sync_spaces_newline)
  qed
  have "runes (buf w') = (runes (buf w) @ runes (space w)) @ [0x0A]"
    using r by simp
  then have "last (linesR w') = []"
    unfolding linesR_def by (simp only: last_split_nl)
  then show "atStart w'" "lineZero w'"
    by (simp_all add: atStart_def lineZero_def w')
qed

lemma addWord_cases:
  assumes cf: "plainCfg limit w" and lim: "0 < limit" and ne: "word w \<noteq> []"
    and aw: "addWord rw w = Inr w'"
  obtains (fits) "int (length (space w)) \<le> limit - lineLen w"
      "w' = w\<lparr>lineLen := lineLen w + int (length (space w)) + PrintableRuneWidth rw (word w),
          buf := buf w @ space w @ word w, space := [], word := []\<rparr>"
    | (over) q r where "lineLen w \<le> limit" "limit - lineLen w < int (length (space w))"
      "0 < q \<or> 0 < r" "int r < limit"
      "w' = w\<lparr>lineLen := int r + PrintableRuneWidth rw (word w),
          buf := buf w @ fill (CHR 0x0A) CHR '' '' (nat (limit - lineLen w)) q (nat limit) r
            @ word w,
          space := [], word := []\<rparr>"
proof -
  note c = plainCfgD [OF cf]
  let ?L = "lineLen w" and ?S = "int (length (space w))"
  from aw ne obtain v where v: "addSpace w = Inr v"
    and w': "w' = v\<lparr>lineLen := lineLen v + PrintableRuneWidth rw (word v),
        buf := buf v @ word v, word := []\<rparr>"
    by (auto simp: addWord_def andThen_eq_Inr)
  show thesis
  proof (cases "?S \<le> limit - ?L")
    case True
    then have "v = w\<lparr>lineLen := ?L + ?S, buf := buf w @ space w, space := []\<rparr>"
      using v c(1) by (simp add: addSpace_fits)
    then have "w' = w\<lparr>lineLen := ?L + ?S + PrintableRuneWidth rw (word w),
        buf := buf w @ space w @ word w, space := [], word := []\<rparr>"
      using w' by simp
    with True show thesis by (rule fits)
  next
    case False
    have Lle: "?L \<le> limit"
    proof (rule ccontr)
      assume "\<not> ?L \<le> limit"
      then have "addSpace w = Inl NegativeRepeatCount"
        using False c(1) by (intro addSpace_negative) simp_all
      with v show False by simp
    qed
    define n where "n = ?S - (limit - ?L)"
    define q where "q = nat (n div limit)"
    define r where "r = nat (n mod limit)"
    have npos: "0 < n"
      using False by (simp add: n_def)
    have nqr: "n = int q * limit + int r"
      using lim npos by (simp add: q_def r_def pos_imp_zdiv_nonneg_iff)
    have qr: "0 < q \<or> 0 < r"
      using npos nqr by (cases "q = 0") auto
    have rmod: "int r = n mod limit"
      using lim by (simp add: r_def)
    have rlt: "int r < limit"
      using lim by (simp add: rmod)
    have "addSpace w = Inr (w\<lparr>buf := buf w
          @ fill (CHR 0x0A) CHR '' '' (nat (limit - ?L)) q (nat limit) r,
        lineLen := n mod limit, space := []\<rparr>)"
      using addSpace_overflow [of w] lim Lle False c(1)
      by (simp add: n_def q_def r_def)
    with v have "v = w\<lparr>buf := buf w
          @ fill (CHR 0x0A) CHR '' '' (nat (limit - ?L)) q (nat limit) r,
        lineLen := n mod limit, space := []\<rparr>"
      by simp
    then have "w' = w\<lparr>lineLen := int r + PrintableRuneWidth rw (word w),
        buf := buf w @ fill (CHR 0x0A) CHR '' '' (nat (limit - ?L)) q (nat limit) r @ word w,
        space := [], word := []\<rparr>"
      using w' rmod by simp
    with Lle False qr rlt show thesis
      by (intro over) simp_all
  qed
qed

lemma addWord_stable:
  assumes inv: "plainInv rw limit w" and st: "atStart w" and lz: "lineZero w"
    and rw: "rewrapped rw limit w" and lim: "0 < limit" and ne: "word w \<noteq> []"
    and aw: "addWord rw w = Inr w'"
  shows "rewrapped rw limit w'" "last (linesR w') \<noteq> []"
proof -
  note d = plainInvD [OF inv]
  have "rewrapped rw limit w' \<and> last (linesR w') \<noteq> []"
    using d(1) lim ne aw
  proof (cases rule: addWord_cases)
    case fits
    have b: "buf w' = buf w @ space w @ word w"
      "lineLen w' = lineLen w + int (length (space w)) + PrintableRuneWidth rw (word w)"
      by (simp_all add: fits(2))
    have r: "runes (buf w') = runes (buf w) @ (runes (space w) @ runes (word w))"
      using d(2,3) by (simp add: b runes_append utf8_append)
    have k: "(\<exists>u'. writeRunes rw u (runes (space w) @ runes (word w)) = Inr u'
        \<and> sync rw limit w' u') \<and> last (linesR w') \<noteq> []" if "sync rw limit w u" for u
      using inv st lz that lim ne fits(1) b by (rule sync_flush_fits)
    from rw obtain u where "sync rw limit w u"
      by (auto simp: rewrapped_def)
    from k [OF this] have "last (linesR w') \<noteq> []" by simp
    moreover have "rewrapped rw limit w'"
      using rw r by (rule rewrapped_extend) (use k in blast)
    ultimately show ?thesis by simp
  next
    case (over q r)
    let ?first = "nat (limit - lineLen w)" and ?l = "nat limit"
    have b: "buf w' = buf w @ fill (CHR 0x0A) CHR '' '' ?first q ?l r @ word w"
      "lineLen w' = int r + PrintableRuneWidth rw (word w)"
      by (simp_all add: over(5))
    have r: "runes (buf w') = runes (buf w) @ (fill 0x0A 0x20 ?first q ?l r @ runes (word w))"
      using d(2,4) by (simp add: b runes_append utf8_append)
    have k: "(\<exists>u'. writeRunes rw u (fill 0x0A 0x20 ?first q ?l r @ runes (word w)) = Inr u'
        \<and> sync rw limit w' u') \<and> last (linesR w') \<noteq> []" if "sync rw limit w u" for u
      using inv that lim ne over(1,2,3) refl over(4) refl b by (rule sync_flush_overflow)
    from rw obtain u where "sync rw limit w u"
      by (auto simp: rewrapped_def)
    from k [OF this] have "last (linesR w') \<noteq> []" by simp
    moreover have "rewrapped rw limit w'"
      using rw r by (rule rewrapped_extend) (use k in blast)
    ultimately show ?thesis by simp
  qed
  then show "rewrapped rw limit w'" "last (linesR w') \<noteq> []"
    by simp_all
qed

lemma encodeRune_nonempty: "encodeRune c \<noteq> []"
  using encodeRune_length [of c] by auto

lemma writeRune_stable:
  assumes sb: "stable rw limit w" and lim: "0 < limit" and nar: "spacesNarrow rw"
    and c: "validRune c" "c \<noteq> 0x1B" "c \<noteq> 0x2D"
    and step: "writeRune rw w c = Inr w'"
  shows "stable rw limit w'"
proof -
  from sb have inv: "plainInv rw limit w" and st: "atStart w" and lz: "lineZero w"
    and rw: "rewrapped rw limit w"
    by (simp_all add: stable_def)
  note d = plainInvD [OF inv]
  note cf = plainCfgD [OF d(1)]
  let ?w0 = "w\<lparr>wroteBegin := True\<rparr>"
  have inv0: "plainInv rw limit ?w0"
    using inv by simp
  have inv': "plainInv rw limit w'"
    using inv lim nar c step by (rule writeRune_inv)
  consider (nl) "c = 0x0A" | (sp) "IsSpace c" "c \<noteq> 0x0A" | (wd) "\<not> IsSpace c"
    by auto
  then have "atStart w' \<and> lineZero w' \<and> rewrapped rw limit w'"
  proof cases
    case nl
    show ?thesis
    proof (cases "word w = []")
      case True
      let ?x = "(if lineLen w + int (length (space w)) > limit then ?w0\<lparr>lineLen := 0\<rparr>
                 else ?w0\<lparr>buf := buf w @ space w\<rparr>)\<lparr>space := []\<rparr>"
      have "writeRune rw w c = addNewLine ?x"
        using nl cf True by (simp add: writeRune_def addWord_def)
      also have "\<dots> = Inr (?x\<lparr>buf := buf ?x @ [CHR 0x0A], lineLen := 0, space := [],
          wroteBegin := False\<rparr>)"
        using cf by (intro addNewLine_plain [of limit]) (simp add: plainCfg_def)
      finally have w': "w' = ?x\<lparr>buf := buf ?x @ [CHR 0x0A], lineLen := 0, space := [],
          wroteBegin := False\<rparr>"
        using step by simp
      show ?thesis
      proof (cases "lineLen w + int (length (space w)) > limit")
        case True
        then have "buf w' = buf w @ [CHR 0x0A]" "lineLen w' = 0"
          using w' by simp_all
        with rw lim d(2) show ?thesis
          by (simp add: stable_newline)
      next
        case False
        then have "buf w' = buf w @ space w @ [CHR 0x0A]" "lineLen w' = 0"
          using w' by simp_all
        with inv st lz rw lim False show ?thesis
          by (simp add: stable_spaces_newline)
      qed
    next
      case False
      have "writeRune rw w c = andThen (addWord rw ?w0) addNewLine"
        using nl cf False by (simp add: writeRune_def)
      with step obtain v where v: "addWord rw ?w0 = Inr v" and nlv: "addNewLine v = Inr w'"
        by (auto simp: andThen_eq_Inr)
      have iv: "plainInv rw limit v"
        using inv0 lim nar v by (rule addWord_inv(1))
      have rv: "rewrapped rw limit v"
        using inv0 _ _ _ lim _ v by (rule addWord_stable(1)) (use st lz rw False in simp_all)
      have "addNewLine v = Inr (v\<lparr>buf := buf v @ [CHR 0x0A], lineLen := 0, space := [],
          wroteBegin := False\<rparr>)"
        using plainInvD(1) [OF iv] by (rule addNewLine_plain)
      with nlv have "buf w' = buf v @ [CHR 0x0A]" "lineLen w' = 0"
        by auto
      with rv lim plainInvD(2) [OF iv] show ?thesis
        by (simp add: stable_newline)
    qed
  next
    case sp
    have "writeRune rw w c =
        andThen (addWord rw ?w0) (\<lambda>w. Inr (w\<lparr>space := space w @ encodeRune c\<rparr>))"
      using sp c cf by (simp add: writeRune_def)
    with step obtain v where v: "addWord rw ?w0 = Inr v"
      and w': "w' = v\<lparr>space := space v @ encodeRune c\<rparr>"
      by (auto simp: andThen_eq_Inr)
    have same: "buf w' = buf v" "lineLen w' = lineLen v"
      by (simp_all add: w')
    have a: "atStart w'"
      by (simp add: atStart_def w' encodeRune_nonempty)
    have "lineZero v \<and> rewrapped rw limit v"
    proof (cases "word w = []")
      case True
      with v have "v = ?w0" by (simp add: addWord_def)
      with lz rw show ?thesis by simp
    next
      case False
      have "rewrapped rw limit v" "last (linesR v) \<noteq> []"
        using addWord_stable [OF inv0 _ _ _ lim _ v] st lz rw False by simp_all
      then show ?thesis
        by (simp add: lineZero_def)
    qed
    then have "lineZero w'" "rewrapped rw limit w'"
      using same by (simp_all add: lineZero_def linesR_def rewrapped_same [of rw limit v w'])
    with a show ?thesis by simp
  next
    case wd
    let ?w1 = "w\<lparr>wroteBegin := True, word := word w @ encodeRune c\<rparr>"
    let ?wd = "runes (word w)"
    have nnl: "c \<noteq> 0x0A"
      using wd by auto
    have r: "runes (word w @ encodeRune c) = ?wd @ [c]"
      using d(4) c(1) by (simp add: runes_snoc)
    have pw: "PrintableRuneWidth rw (word ?w1) = int (width rw ?wd + rw c)"
      using d(7) c(2) by (subst PrintableRuneWidth_plain) (auto simp: r)
    define brk where "brk \<longleftrightarrow>
        lineLen w + int (length (space w)) + int (width rw ?wd + rw c) > limit
          \<and> int (width rw ?wd + rw c) < limit"
    have wr: "writeRune rw w c = (if brk then addNewLine ?w1 else Inr ?w1)"
      using writeRune_plain [of w c rw] cf wd c nnl pw by (simp add: Let_def brk_def)
    show ?thesis
    proof (cases brk)
      case False
      with wr step have w': "w' = ?w1" by simp
      have "rewrapped rw limit w'"
        using rw by (rule rewrapped_same) (simp_all add: w')
      then show ?thesis
        using st lz by (simp add: w' atStart_def lineZero_def linesR_def)
    next
      case True
      have "addNewLine ?w1 = Inr (?w1\<lparr>buf := buf ?w1 @ [CHR 0x0A], lineLen := 0, space := [],
          wroteBegin := False\<rparr>)"
        using cf by (intro addNewLine_plain [of limit]) (simp add: plainCfg_def)
      with wr step True have "buf w' = buf w @ [CHR 0x0A]" "lineLen w' = 0"
        by auto
      with rw lim d(2) show ?thesis
        by (simp add: stable_newline)
    qed
  qed
  with inv' show ?thesis
    by (simp add: stable_def)
qed

lemma writeRunes_stable:
  assumes "stable rw limit w" and "0 < limit" and "spacesNarrow rw"
    and "\<forall>c\<in>set cs. validRune c \<and> c \<noteq> 0x1B \<and> c \<noteq> 0x2D"
    and "writeRunes rw w cs = Inr w'"
  shows "stable rw limit w'"
  using assms
proof (induction cs arbitrary: w)
  case Nil
  then show ?case by simp
next
  case (Cons c cs)
  from Cons.prems(5) obtain v where v: "writeRune rw w c = Inr v"
    and r: "writeRunes rw v cs = Inr w'"
    by (auto simp: andThen_eq_Inr)
  have "stable rw limit v"
    using Cons.prems(1,2,3) _ _ _ v by (rule writeRune_stable) (use Cons.prems(4) in auto)
  then show ?case
    using Cons.prems(2,3) _ r by (rule Cons.IH) (use Cons.prems(4) in auto)
qed

lemma stable_NewWriter: "0 < limit \<Longrightarrow> stable rw limit (NewWriter limit)"
  by (simp add: stable_def plainInv_NewWriter atStart_def lineZero_def linesR_def
      rewrapped_def sync_def pending_def plainCfg_def)

section \<open>Wrapping twice\<close>

lemma rewrapped_Bytes:
  assumes rw: "rewrapped rw limit w" and lim: "0 < limit"
  shows "Bytes rw (buf w) limit = Inr (buf w)"
proof -
  from rw obtain u where u: "writeRunes rw (NewWriter limit) (runes (buf w)) = Inr u"
    and s: "sync rw limit w u"
    by (auto simp: rewrapped_def)
  note e = syncD [OF s]
  note c = plainCfgD [OF e(1)]
  have wr: "Write rw (NewWriter limit) (buf w) = Inr u"
    using u lim by (simp add: Write_def)
  have "\<exists>u'. addWord rw u = Inr u' \<and> buf u' = buf w"
  proof (cases "word u = []")
    case True
    then have "last (linesR w) = []" by (rule e(3))
    then have "space u = []" using e(4) by simp
    with True e(2) show ?thesis
      by (simp add: addWord_def)
  next
    case False
    have "addWord rw u = Inr (u\<lparr>lineLen := lineLen u + int (length (space u))
          + PrintableRuneWidth rw (word u),
        buf := buf u @ space u @ word u, space := [], word := []\<rparr>)"
      using False e(5) by (intro addWord_fits) (simp_all add: c)
    with e(2) show ?thesis by simp
  qed
  then obtain u' where "addWord rw u = Inr u'" "buf u' = buf w"
    by blast
  then have "andThen (Close rw u) (\<lambda>f. Inr (buf f)) = Inr (buf w)"
    using c(5) by (simp add: Close_def)
  with wr show ?thesis
    by (simp add: Bytes_def)
qed

lemma plain_idempotent:
  assumes lim: "0 < limit" and nar: "spacesNarrow rw"
    and esc: "CHR 0x1B \<notin> set s" and bp: "CHR ''-'' \<notin> set s"
    and out: "Bytes rw s limit = Inr out"
  shows "Bytes rw out limit = Inr out"
proof -
  note cs = plain_runes [OF esc bp]
  from out obtain w1 w2 where w1: "Write rw (NewWriter limit) s = Inr w1"
    and w2: "Close rw w1 = Inr w2" and o: "out = buf w2"
    by (auto simp: Bytes_def andThen_eq_Inr)
  have wr: "writeRunes rw (NewWriter limit) (runes s) = Inr w1"
    using w1 lim by (simp add: Write_def)
  have s1: "stable rw limit w1"
    using stable_NewWriter [OF lim] lim nar cs wr by (rule writeRunes_stable)
  then have i1: "plainInv rw limit w1" and st: "atStart w1" and lz: "lineZero w1"
    and r1: "rewrapped rw limit w1"
    by (simp_all add: stable_def)
  have aw: "addWord rw w1 = Inr w2"
    using w2 plainCfgD(5) [OF plainInvD(1) [OF i1]] by (simp add: Close_def)
  have "rewrapped rw limit w2"
  proof (cases "word w1 = []")
    case True
    with aw have "w2 = w1" by (simp add: addWord_def)
    with r1 show ?thesis by simp
  next
    case False
    with i1 st lz r1 lim show ?thesis
      using aw by (rule addWord_stable(1))
  qed
  then show ?thesis
    unfolding o using lim by (rule rewrapped_Bytes)
qed

text \<open>
  C9, as the specification states it, fails: at limit 2 the input \<^verbatim>\<open>aa\<close>, two spaces, \<^verbatim>\<open>-a\<close>
  (no escape sequence) is wrapped to \<^verbatim>\<open>aa\<close> and a second line of two spaces and \<^verbatim>\<open>-a\<close>; wrapped
  again, that output gets a third line. In the first pass the two spaces do not fit behind
  \<^verbatim>\<open>aa\<close>, \<^verbatim>\<open>addSpace\<close> moves them to a full line of their own and leaves \<^verbatim>\<open>lineLen\<close> at
  0, so \<^verbatim>\<open>-a\<close> follows on that line; in the second pass the spaces start the line and are
  counted.
\<close>

theorem rewrap_counterexample:
  "Bytes cellWidth ''aa  -a'' 2 = Inr (''aa'' @ CHR 0x0A # ''  -a'')
   \<and> Bytes cellWidth (''aa'' @ CHR 0x0A # ''  -a'') 2
       = Inr (''aa'' @ CHR 0x0A # ''  -'' @ CHR 0x0A # ''a'')
   \<and> ''aa'' @ CHR 0x0A # ''  -'' @ CHR 0x0A # ''a'' \<noteq> ''aa'' @ CHR 0x0A # ''  -a''"
  by code_simp

text \<open>
  C9, amended. With the default settings and a limit above zero, for an input with no
  escape introducer and no breakpoint character (and a width function that takes no
  white-space rune for wider than its encoding is long), wrapping the output of the first
  pass again at the same limit returns it unchanged. When every rune is narrower than the
  limit, the first pass has an output.
\<close>

theorem rewrap_idempotent:
  assumes "0 < limit" and "spacesNarrow rw"
    and "CHR 0x1B \<notin> set s" and "CHR ''-'' \<notin> set s"
  shows "(\<forall>out. Bytes rw s limit = Inr out \<longrightarrow> Bytes rw out limit = Inr out)
    \<and> ((\<forall>c. int (rw c) < limit) \<longrightarrow> (\<exists>out. Bytes rw s limit = Inr out))"
  using assms plain_idempotent plain_returns by blast

theorem rewrap_idempotent_witness:
  "Bytes cellWidth ''a bb   ccc dddddd  e'' 5
     = Inr (''a bb'' @ CHR 0x0A # ''ccc'' @ CHR 0x0A # ''dddddd'' @ CHR 0x0A # ''e'')
   \<and> Bytes cellWidth (''a bb'' @ CHR 0x0A # ''ccc'' @ CHR 0x0A # ''dddddd'' @ CHR 0x0A # ''e'') 5
     = Inr (''a bb'' @ CHR 0x0A # ''ccc'' @ CHR 0x0A # ''dddddd'' @ CHR 0x0A # ''e'')"
proof -
  have b: "Bytes cellWidth ''a bb   ccc dddddd  e'' 5 =
      Inr (''a bb'' @ CHR 0x0A # ''ccc'' @ CHR 0x0A # ''dddddd'' @ CHR 0x0A # ''e'')"
    by code_simp
  have "CHR 0x1B \<notin> set ''a bb   ccc dddddd  e''" "CHR ''-'' \<notin> set ''a bb   ccc dddddd  e''"
    by simp_all
  with b show ?thesis
    using rewrap_idempotent [of 5 cellWidth "''a bb   ccc dddddd  e''"] cellWidth_narrow
    by simp
qed

section \<open>The engine under any settings, on text without escape sequences and breakpoints\<close>

lemma split_spaces:
  assumes "int (width rw acc) \<le> A \<or> limit \<le> int (maxWord rw 0 acc)"
    and "A + int (width rw xs) \<le> B" and "B \<le> limit" and "0 \<le> A"
  shows "list_all (okLine rw limit) (butlast (splitFrom nl acc xs))
    \<and> (int (width rw (last (splitFrom nl acc xs))) \<le> B
        \<or> limit \<le> int (maxWord rw 0 (last (splitFrom nl acc xs))))"
  using assms
proof (induction xs arbitrary: acc A)
  case Nil
  then show ?case by auto
next
  case (Cons c cs)
  show ?case
  proof (cases "c = nl")
    case True
    have "int (width rw []) \<le> A + int (rw c) \<or> limit \<le> int (maxWord rw 0 [])"
      using Cons.prems by auto
    moreover have "A + int (rw c) + int (width rw cs) \<le> B"
      using Cons.prems(2) by simp
    ultimately have ih: "list_all (okLine rw limit) (butlast (splitFrom nl [] cs))
        \<and> (int (width rw (last (splitFrom nl [] cs))) \<le> B
          \<or> limit \<le> int (maxWord rw 0 (last (splitFrom nl [] cs))))"
      using Cons.prems(3) by (rule Cons.IH) (use Cons.prems(4) in simp)
    have "okLine rw limit acc"
      using Cons.prems by (auto simp: okLine_def)
    with ih True show ?thesis by simp
  next
    case False
    have "int (width rw (acc @ [c])) \<le> A + int (rw c)
        \<or> limit \<le> int (maxWord rw 0 (acc @ [c]))"
      using Cons.prems(1) maxWord_append_ge [of rw 0 acc "[c]"] by auto
    moreover have "A + int (rw c) + int (width rw cs) \<le> B"
      using Cons.prems(2) by simp
    ultimately have "list_all (okLine rw limit) (butlast (splitFrom nl (acc @ [c]) cs))
        \<and> (int (width rw (last (splitFrom nl (acc @ [c]) cs))) \<le> B
          \<or> limit \<le> int (maxWord rw 0 (last (splitFrom nl (acc @ [c]) cs))))"
      using Cons.prems(3) by (rule Cons.IH) (use Cons.prems(4) in simp)
    with False show ?thesis by simp
  qed
qed

lemma framedD:
  assumes "framed rw v w"
  shows "sameSettings v w" "0 < Limit w" "\<not> ansi w" "lastAnsi w = []"
    "utf8 (buf w)" "utf8 (space w)" "utf8 (word w)"
    "0x1B \<notin> set (runes (buf w))"
    "\<forall>c\<in>set (runes (space w)). IsSpace c"
    "\<forall>c\<in>set (runes (word w)). \<not> IsSpace c \<and> c \<noteq> 0x1B"
    "list_all (okLine rw (Limit w)) (butlast (linesR w))"
  using assms by (simp_all add: framed_def)

lemma lineInvD:
  assumes "lineInv rw v w"
  shows "framed rw v w" "0 \<le> lineLen w" "curFit rw w" "wordFit rw w"
  using assms by (simp_all add: lineInv_def)

lemma curFit_ok: "curFit rw w \<Longrightarrow> okLine rw (Limit w) (last (linesR w))"
  by (auto simp: curFit_def okLine_def)

lemma space_width:
  assumes "spacesNarrow rw" and "utf8 s" and "\<forall>c\<in>set (runes s). IsSpace c"
  shows "int (width rw (runes s)) \<le> int (length s)"
proof -
  have "width rw (runes s) \<le> length (enc (runes s))"
    using assms(1,3) by (rule width_spaces_le)
  then show ?thesis
    using assms(2) by (simp add: enc_runes)
qed

text \<open>Pending spaces that fit, appended to the output.\<close>

lemma spaces_lines:
  assumes fr: "framed rw v w" and nar: "spacesNarrow rw" and cur: "curFit rw w"
    and pos: "0 \<le> lineLen w" and fit: "lineLen w + int (length (space w)) \<le> Limit w"
    and b: "buf x = buf w @ space w"
  shows "utf8 (buf x)" "0x1B \<notin> set (runes (buf x))"
    "list_all (okLine rw (Limit w)) (butlast (linesR x))"
    "int (width rw (last (linesR x))) \<le> lineLen w + int (length (space w))
      \<or> Limit w \<le> int (maxWord rw 0 (last (linesR x)))"
proof -
  note d = framedD [OF fr]
  let ?sp = "runes (space w)" and ?cur = "last (linesR w)"
  have r: "runes (buf x) = runes (buf w) @ ?sp"
    using d(5) by (simp add: b runes_append)
  show "utf8 (buf x)"
    using d(5,6) by (simp add: b utf8_append)
  show "0x1B \<notin> set (runes (buf x))"
    using d(8,9) by (auto simp: r)
  have lx: "linesR x = butlast (linesR w) @ splitFrom 0x0A ?cur ?sp"
    unfolding linesR_def r by (rule splitFrom_append)
  have a: "int (width rw ?cur) \<le> lineLen w \<or> Limit w \<le> int (maxWord rw 0 ?cur)"
    using cur by (auto simp: curFit_def)
  have "lineLen w + int (width rw ?sp) \<le> lineLen w + int (length (space w))"
    using space_width [OF nar d(6,9)] by simp
  with a have s: "list_all (okLine rw (Limit w)) (butlast (splitFrom 0x0A ?cur ?sp))
    \<and> (int (width rw (last (splitFrom 0x0A ?cur ?sp))) \<le> lineLen w + int (length (space w))
        \<or> Limit w \<le> int (maxWord rw 0 (last (splitFrom 0x0A ?cur ?sp))))"
    using fit pos by (rule split_spaces)
  show "list_all (okLine rw (Limit w)) (butlast (linesR x))"
    using d(11) s by (simp add: lx butlast_append)
  show "int (width rw (last (linesR x))) \<le> lineLen w + int (length (space w))
      \<or> Limit w \<le> int (maxWord rw 0 (last (linesR x)))"
    using s by (simp add: lx)
qed

text \<open>
  What \<^verbatim>\<open>addSpace\<close> leaves: the complete lines and the current line are within the limit
  or hold a long word, \<^verbatim>\<open>lineLen\<close> is within the limit, and when the spaces fit the
  current line is no wider than \<^verbatim>\<open>lineLen\<close> says.
\<close>

lemma addSpace_lines:
  assumes fr: "framed rw v w" and nar: "spacesNarrow rw" and cur: "curFit rw w"
    and pos: "0 \<le> lineLen w" and as: "addSpace w = Inr x"
  shows "utf8 (buf x)" "0x1B \<notin> set (runes (buf x))"
    "list_all (okLine rw (Limit w)) (butlast (linesR x))"
    "okLine rw (Limit w) (last (linesR x))"
    "0 \<le> lineLen x" "lineLen x \<le> Limit w"
    "int (length (space w)) \<le> Limit w - lineLen w \<Longrightarrow>
      lineLen x = lineLen w + int (length (space w))
      \<and> (int (width rw (last (linesR x))) \<le> lineLen x
          \<or> Limit w \<le> int (maxWord rw 0 (last (linesR x))))"
proof -
  note d = framedD [OF fr]
  let ?L = "lineLen w" and ?S = "int (length (space w))" and ?limit = "Limit w"
  let ?cur = "last (linesR w)"
  have concl: "utf8 (buf x) \<and> 0x1B \<notin> set (runes (buf x))
    \<and> list_all (okLine rw ?limit) (butlast (linesR x))
    \<and> okLine rw ?limit (last (linesR x))
    \<and> 0 \<le> lineLen x \<and> lineLen x \<le> ?limit
    \<and> (?S \<le> ?limit - ?L \<longrightarrow> lineLen x = ?L + ?S
      \<and> (int (width rw (last (linesR x))) \<le> lineLen x
          \<or> ?limit \<le> int (maxWord rw 0 (last (linesR x)))))"
  proof (cases "?S \<le> ?limit - ?L")
    case True
    then have x: "x = w\<lparr>lineLen := ?L + ?S, buf := buf w @ space w, space := []\<rparr>"
      using as by (simp add: addSpace_fits)
    have fit: "?L + ?S \<le> ?limit"
      using True by simp
    have b: "buf x = buf w @ space w" and l: "lineLen x = ?L + ?S"
      by (simp_all add: x)
    note s = spaces_lines [OF fr nar cur pos fit b]
    have "okLine rw ?limit (last (linesR x))"
      using s(4) fit by (auto simp: okLine_def)
    with s True pos show ?thesis
      by (simp add: l)
  next
    case False
    have Lle: "?L \<le> ?limit"
    proof (rule ccontr)
      assume "\<not> ?L \<le> ?limit"
      then have "addSpace w = Inl NegativeRepeatCount"
        using False by (intro addSpace_negative) simp_all
      with as show False by simp
    qed
    define n where "n = ?S - (?limit - ?L)"
    define first where "first = nat (?limit - ?L)"
    define q where "q = nat (n div ?limit)"
    define r where "r = nat (n mod ?limit)"
    define l where "l = nat ?limit"
    have lim: "0 < ?limit" by (rule d(2))
    have npos: "0 < n"
      using False by (simp add: n_def)
    have nqr: "n = int q * ?limit + int r"
      using lim npos by (simp add: q_def r_def pos_imp_zdiv_nonneg_iff)
    have qr: "0 < q \<or> 0 < r"
      using npos nqr by (cases "q = 0") auto
    have rmod: "int r = n mod ?limit"
      using lim by (simp add: r_def)
    have rlt: "int r < ?limit"
      using lim by (simp add: rmod)
    have "addSpace w = Inr (w\<lparr>buf := buf w @ fill (CHR 0x0A) CHR '' '' first q l r,
        lineLen := n mod ?limit, space := []\<rparr>)"
      using addSpace_overflow [of w] lim Lle False
      by (simp add: n_def first_def q_def r_def l_def)
    with as have x: "x = w\<lparr>buf := buf w @ fill (CHR 0x0A) CHR '' '' first q l r,
        lineLen := int r, space := []\<rparr>"
      by (simp add: rmod)
    let ?f = "fill (0x0A::nat) 0x20 first q l r"
    let ?tail = "(if 0 < r then replicate r (0x20::nat) else replicate l 0x20)"
    have rx: "runes (buf x) = runes (buf w) @ ?f"
      using d(5) by (simp add: x runes_append)
    have lx: "linesR x = butlast (linesR w) @ splitFrom 0x0A ?cur (?f @ [])"
      unfolding linesR_def rx using splitFrom_append [of "0x0A" "[]" "runes (buf w)" ?f] by simp
    have lst: "last (splitFrom 0x0A ?cur (?f @ [])) = ?tail @ []"
      using split_fill(1) [of "0x20" "0x0A" "[]" q r ?cur first l] qr by simp
    have okf: "okLine rw ?limit (?cur @ replicate first 0x20)"
    proof (cases "?limit \<le> int (maxWord rw 0 ?cur)")
      case True
      then show ?thesis
        using maxWord_append_ge [of rw 0 ?cur "replicate first 0x20"]
        by (simp add: okLine_def)
    next
      case False
      with cur have "int (width rw ?cur) \<le> ?L" by (simp add: curFit_def)
      moreover have "int (width rw (replicate first 0x20)) \<le> ?limit - ?L"
        using width_blanks_le [OF nar, of first] Lle by (simp add: first_def)
      ultimately show ?thesis
        by (simp add: okLine_def)
    qed
    have okl: "okLine rw ?limit (replicate l 0x20)"
    proof -
      have "int (width rw (replicate l 0x20)) \<le> int l"
        using width_blanks_le [OF nar, of l] by linarith
      then show ?thesis
        using lim by (simp add: okLine_def l_def)
    qed
    have okr: "okLine rw ?limit (replicate r 0x20)"
    proof -
      have "int (width rw (replicate r 0x20)) \<le> int r"
        using width_blanks_le [OF nar, of r] by linarith
      then show ?thesis
        using rlt by (simp add: okLine_def)
    qed
    have bl: "list_all (okLine rw ?limit) (butlast (splitFrom 0x0A ?cur (?f @ [])))"
      using split_fill(2) [of "0x20" "0x0A" "[]" q r "okLine rw ?limit" ?cur first l, OF _ _ qr okf okl]
      by simp
    have esc: "0x1B \<notin> set ?f"
      using set_fill [of "0x0A::nat" "0x20" first q l r] by auto
    have 1: "utf8 (buf x)"
      using d(5) by (simp add: x utf8_append)
    have 2: "0x1B \<notin> set (runes (buf x))"
      using d(8) esc by (simp add: rx)
    have 3: "list_all (okLine rw ?limit) (butlast (linesR x))"
      using d(11) bl by (simp add: lx butlast_append)
    have 4: "okLine rw ?limit (last (linesR x))"
      using lst okl okr by (simp add: lx)
    have 5: "0 \<le> lineLen x" "lineLen x \<le> ?limit"
      using rlt by (simp_all add: x)
    from 1 2 3 4 5 False show ?thesis by simp
  qed
  from concl show "utf8 (buf x)" "0x1B \<notin> set (runes (buf x))"
    "list_all (okLine rw (Limit w)) (butlast (linesR x))"
    "okLine rw (Limit w) (last (linesR x))" "0 \<le> lineLen x" "lineLen x \<le> Limit w"
    by simp_all
  from concl show "lineLen x = lineLen w + int (length (space w))
      \<and> (int (width rw (last (linesR x))) \<le> lineLen x
          \<or> Limit w \<le> int (maxWord rw 0 (last (linesR x))))"
    if "int (length (space w)) \<le> Limit w - lineLen w"
    using that by auto
qed

lemma framed_wroteBegin [simp]: "framed rw v (w\<lparr>wroteBegin := b\<rparr>) = framed rw v w"
  by (simp add: framed_def sameSettings_def linesR_def)

lemma lineInv_wroteBegin [simp]: "lineInv rw v (w\<lparr>wroteBegin := b\<rparr>) = lineInv rw v w"
  by (simp add: lineInv_def curFit_def wordFit_def linesR_def)

lemma addSpace_framed:
  assumes fr: "framed rw v w" and nar: "spacesNarrow rw" and cur: "curFit rw w"
    and pos: "0 \<le> lineLen w" and as: "addSpace w = Inr x"
  shows "framed rw v x" "okLine rw (Limit x) (last (linesR x))"
proof -
  note d = framedD [OF fr]
  note s = addSpace_lines [OF fr nar cur pos as]
  note f = addSpace_frame [OF as]
  show "framed rw v x"
    unfolding framed_def using d s(1,2,3) by (simp add: f sameSettings_def)
  show "okLine rw (Limit x) (last (linesR x))"
    using s(4) by (simp add: f)
qed

lemma break_lineInv:
  assumes fr: "framed rw v w" and ok: "okLine rw (Limit w) (last (linesR w))"
  shows "lineInv rw v (w\<lparr>buf := buf w @ [CHR 0x0A], lineLen := 0, space := [], wroteBegin := b\<rparr>)"
proof -
  note d = framedD [OF fr]
  let ?w' = "w\<lparr>buf := buf w @ [CHR 0x0A], lineLen := 0, space := [], wroteBegin := b\<rparr>"
  have r: "runes (buf w @ [CHR 0x0A]) = runes (buf w) @ [0x0A]"
    using d(5) by (simp add: runes_append)
  have lw: "butlast (linesR ?w') = butlast (linesR w) @ [last (linesR w)]"
    "last (linesR ?w') = []"
    by (simp_all add: linesR_def r butlast_split_nl last_split_nl)
  have "framed rw v ?w'"
    unfolding framed_def lw
    using d ok by (simp add: r) (simp add: sameSettings_def utf8_append)
  moreover have "curFit rw ?w'"
    unfolding curFit_def lw using d(2) by simp
  moreover have "wordFit rw ?w'"
    by (auto simp: wordFit_def)
  ultimately show ?thesis
    by (simp add: lineInv_def)
qed

lemma addSpace_nothing:
  assumes "space w = []" and "addSpace w = Inr x"
  shows "buf x = buf w" "lineLen x = lineLen w"
  using assms
  by (auto simp: addSpace_def Repeat_def Let_def split: if_splits)

lemma addNewLine_shape:
  assumes "lastAnsi w = []" and "addNewLine w = Inr w'"
  obtains x where "if PreserveSpaces w then addSpace w = Inr x else x = w"
    and "w' = x\<lparr>buf := buf x @ [CHR 0x0A], lineLen := 0, space := [], wroteBegin := False\<rparr>"
proof (cases "PreserveSpaces w")
  case True
  with assms(2) obtain x where x: "addSpace w = Inr x"
    and w': "w' = x\<lparr>buf := buf x @ (if length (lastAnsi x) \<noteq> 0
          then [CHR 0x1B, CHR ''['', CHR ''0'', CHR ''m''] else []) @ [CHR 0x0A],
        lineLen := 0, space := [], wroteBegin := False\<rparr>"
    by (auto simp: addNewLine_def andThen_eq_Inr)
  have "lastAnsi x = []"
    using addSpace_frame(3) [OF x] assms(1) by simp
  with w' have "w' = x\<lparr>buf := buf x @ [CHR 0x0A], lineLen := 0, space := [], wroteBegin := False\<rparr>"
    by simp
  with x True show thesis
    by (intro that [of x]) simp_all
next
  case False
  with assms have "w' = w\<lparr>buf := buf w @ [CHR 0x0A], lineLen := 0, space := [], wroteBegin := False\<rparr>"
    by (simp add: addNewLine_def)
  with False show thesis
    by (intro that [of w]) simp_all
qed

text \<open>A line break behind pending spaces: they are flushed or dropped.\<close>

lemma addNewLine_lineInv:
  assumes fr: "framed rw v w" and nar: "spacesNarrow rw" and cur: "curFit rw w"
    and pos: "0 \<le> lineLen w" and nl: "addNewLine w = Inr w'"
  shows "lineInv rw v w'"
proof -
  note d = framedD [OF fr]
  from d(4) nl obtain x where x: "if PreserveSpaces w then addSpace w = Inr x else x = w"
    and w': "w' = x\<lparr>buf := buf x @ [CHR 0x0A], lineLen := 0, space := [], wroteBegin := False\<rparr>"
    by (rule addNewLine_shape)
  have "framed rw v x \<and> okLine rw (Limit x) (last (linesR x))"
  proof (cases "PreserveSpaces w")
    case True
    with x have "addSpace w = Inr x" by simp
    with fr nar cur pos show ?thesis
      by (simp add: addSpace_framed)
  next
    case False
    with x fr cur show ?thesis
      by (simp add: curFit_ok)
  qed
  then show ?thesis
    using break_lineInv [of rw v x False] by (simp add: w')
qed

text \<open>A line break with no pending spaces, behind a line that \<^verbatim>\<open>lineLen\<close> may not count.\<close>

lemma addNewLine_empty_lineInv:
  assumes fr: "framed rw v w" and ok: "okLine rw (Limit w) (last (linesR w))"
    and sp: "space w = []" and nl: "addNewLine w = Inr w'"
  shows "lineInv rw v w'"
proof -
  note d = framedD [OF fr]
  from d(4) nl obtain x where x: "if PreserveSpaces w then addSpace w = Inr x else x = w"
    and w': "w' = x\<lparr>buf := buf x @ [CHR 0x0A], lineLen := 0, space := [], wroteBegin := False\<rparr>"
    by (rule addNewLine_shape)
  have "framed rw v x \<and> okLine rw (Limit x) (last (linesR x))"
  proof (cases "PreserveSpaces w")
    case True
    with x have as: "addSpace w = Inr x" by simp
    note f = addSpace_frame [OF as]
    note n = addSpace_nothing [OF sp as]
    have "framed rw v x"
      unfolding framed_def using d by (simp add: f n linesR_def sameSettings_def)
    moreover have "okLine rw (Limit x) (last (linesR x))"
      using ok by (simp add: f n linesR_def)
    ultimately show ?thesis by simp
  next
    case False
    with x fr ok show ?thesis by simp
  qed
  then show ?thesis
    using break_lineInv [of rw v x False] by (simp add: w')
qed

lemma addWord_lineInv:
  assumes inv: "lineInv rw v w" and nar: "spacesNarrow rw" and aw: "addWord rw w = Inr w'"
  shows "lineInv rw v w'" "word w' = []" "word w \<noteq> [] \<Longrightarrow> space w' = []"
proof -
  note i = lineInvD [OF inv]
  note d = framedD [OF i(1)]
  let ?wd = "runes (word w)"
  let ?L = "lineLen w" and ?S = "int (length (space w))" and ?W = "int (width rw ?wd)"
  have concl: "lineInv rw v w' \<and> word w' = [] \<and> (word w \<noteq> [] \<longrightarrow> space w' = [])"
  proof (cases "word w = []")
    case True
    with aw inv show ?thesis by (simp add: addWord_def)
  next
    case False
    from aw False obtain x where as: "addSpace w = Inr x"
      and w': "w' = x\<lparr>lineLen := lineLen x + PrintableRuneWidth rw (word x),
          buf := buf x @ word x, word := []\<rparr>"
      by (auto simp: addWord_def andThen_eq_Inr)
    note s = addSpace_lines [OF i(1) nar i(3) i(2) as]
    note f = addSpace_frame [OF as]
    have pw: "PrintableRuneWidth rw (word w) = ?W"
      using d(10) by (intro PrintableRuneWidth_plain) auto
    have nl_wd: "0x0A \<notin> set ?wd" and esc_wd: "0x1B \<notin> set ?wd"
      and nsp_wd: "\<forall>c\<in>set ?wd. \<not> IsSpace c"
      using d(10) by auto
    have b: "buf w' = buf x @ word w" and l: "lineLen w' = lineLen x + ?W"
      by (simp_all add: w' f pw)
    have r: "runes (buf w') = runes (buf x) @ ?wd"
      using s(1) by (simp add: b runes_append)
    have lr: "butlast (linesR w') = butlast (linesR x)"
      "last (linesR w') = last (linesR x) @ ?wd"
      unfolding linesR_def r using nl_wd
      by (simp_all add: butlast_split_plain last_split_plain)
    have fit: "?L + ?S + ?W \<le> Limit w \<or> Limit w \<le> ?W"
      using i(4) False by (simp add: wordFit_def)
    have cur: "(int (width rw (last (linesR x) @ ?wd)) \<le> lineLen x + ?W
          \<and> lineLen x + ?W \<le> Limit w)
        \<or> Limit w \<le> int (maxWord rw 0 (last (linesR x) @ ?wd))"
    proof (cases "Limit w \<le> ?W")
      case True
      then show ?thesis
        using maxWord_suffix_word [OF nsp_wd, of rw 0 "last (linesR x)"] by linarith
    next
      case False
      with fit have le: "?L + ?S + ?W \<le> Limit w" by simp
      then have "?S \<le> Limit w - ?L" by simp
      from s(7) [OF this] have lx: "lineLen x = ?L + ?S"
        and a: "int (width rw (last (linesR x))) \<le> lineLen x
          \<or> Limit w \<le> int (maxWord rw 0 (last (linesR x)))"
        by auto
      from a show ?thesis
      proof
        assume "int (width rw (last (linesR x))) \<le> lineLen x"
        with le lx show ?thesis by simp
      next
        assume "Limit w \<le> int (maxWord rw 0 (last (linesR x)))"
        then show ?thesis
          using maxWord_append_ge [of rw 0 "last (linesR x)" ?wd] by linarith
      qed
    qed
    have "framed rw v w'"
      unfolding framed_def lr
      using d s(1,2,3) esc_wd
      by (simp add: r) (simp add: w' f sameSettings_def utf8_append)
    moreover have "curFit rw w'"
      unfolding curFit_def lr l using cur by (simp add: w' f)
    moreover have "wordFit rw w'" "word w' = []" "space w' = []"
      by (simp_all add: wordFit_def w' f)
    moreover have "0 \<le> lineLen w'"
      using s(5) by (simp add: l)
    ultimately show ?thesis
      by (simp add: lineInv_def)
  qed
  from concl show "lineInv rw v w'" "word w' = []" "word w \<noteq> [] \<Longrightarrow> space w' = []"
    by simp_all
qed

text \<open>An iteration of the loop outside an escape sequence, with no style to restart.\<close>

lemma writeRune_unstyled:
  assumes "\<not> ansi w" and "lastAnsi w = []" and "c \<noteq> 0x1B" and "\<not> inGroup (Breakpoints w) c"
  shows "writeRune rw w c =
    (let w = w\<lparr>wroteBegin := True\<rparr> in
     if inGroup (Newline w) c then
       andThen
         (addWord rw
           (if length (word w) = 0 then
              (if lineLen w + int (length (space w)) > Limit w then w\<lparr>lineLen := 0\<rparr>
               else w\<lparr>buf := buf w @ space w\<rparr>)\<lparr>space := []\<rparr>
            else w))
         addNewLine
     else if IsSpace c then
       andThen (addWord rw w) (\<lambda>w. Inr (w\<lparr>space := space w @ encodeRune c\<rparr>))
     else if HardWrap w \<and>
         lineLen w + PrintableRuneWidth rw (word w) + int (rw c) + int (length (space w))
           = Limit w then
       addWord rw (w\<lparr>word := word w @ encodeRune c\<rparr>)
     else
       (let w = w\<lparr>word := word w @ encodeRune c\<rparr> in
        if lineLen w + int (length (space w)) + PrintableRuneWidth rw (word w) > Limit w
           \<and> PrintableRuneWidth rw (word w) < Limit w
        then addNewLine w else Inr w))"
  using assms by (simp add: writeRune_def Let_def)

lemma word_snoc:
  assumes fr: "framed rw v w" and c: "validRune c" "c \<noteq> 0x1B" "\<not> IsSpace c"
  shows "framed rw v (w\<lparr>word := word w @ encodeRune c\<rparr>)"
    "PrintableRuneWidth rw (word w @ encodeRune c) = int (width rw (runes (word w)) + rw c)"
    "runes (word w @ encodeRune c) = runes (word w) @ [c]"
    "PrintableRuneWidth rw (word w) = int (width rw (runes (word w)))"
proof -
  note d = framedD [OF fr]
  show r: "runes (word w @ encodeRune c) = runes (word w) @ [c]"
    using d(7) c(1) by (simp add: runes_snoc)
  show "PrintableRuneWidth rw (word w @ encodeRune c) = int (width rw (runes (word w)) + rw c)"
    using d(10) c(2) by (subst PrintableRuneWidth_plain) (auto simp: r)
  show "PrintableRuneWidth rw (word w) = int (width rw (runes (word w)))"
    using d(10) by (intro PrintableRuneWidth_plain) auto
  show "framed rw v (w\<lparr>word := word w @ encodeRune c\<rparr>)"
    unfolding framed_def
    using d c
    by (simp add: r linesR_def) (simp add: sameSettings_def utf8_append utf8_encodeRune)
qed

lemma writeRune_lineInv:
  assumes inv: "lineInv rw v w" and nar: "spacesNarrow rw"
    and c: "validRune c" "c \<noteq> 0x1B" "\<not> inGroup (Breakpoints w) c"
    and step: "writeRune rw w c = Inr w'"
  shows "lineInv rw v w'"
proof -
  note i = lineInvD [OF inv]
  note d = framedD [OF i(1)]
  let ?w0 = "w\<lparr>wroteBegin := True\<rparr>"
  let ?L = "lineLen w" and ?S = "int (length (space w))"
  let ?W = "int (width rw (runes (word w)))"
  have inv0: "lineInv rw v ?w0"
    using inv by simp
  have fr0: "framed rw v ?w0"
    using i(1) by simp
  note wr = writeRune_unstyled [of w c rw, OF d(3,4) c(2,3)]
  consider (nl) "inGroup (Newline w) c"
    | (sp) "\<not> inGroup (Newline w) c" "IsSpace c"
    | (wd) "\<not> inGroup (Newline w) c" "\<not> IsSpace c"
    by auto
  then show ?thesis
  proof cases
    case nl
    show ?thesis
    proof (cases "word w = []")
      case True
      let ?x = "(if ?L + ?S > Limit w then ?w0\<lparr>lineLen := 0\<rparr>
                 else ?w0\<lparr>buf := buf w @ space w\<rparr>)\<lparr>space := []\<rparr>"
      have "writeRune rw w c = addNewLine ?x"
        using nl True by (simp add: wr addWord_def)
      with step have nlx: "addNewLine ?x = Inr w'" by simp
      have "framed rw v ?x \<and> okLine rw (Limit ?x) (last (linesR ?x))"
      proof (cases "?L + ?S > Limit w")
        case True
        have "framed rw v (?w0\<lparr>lineLen := 0, space := []\<rparr>)"
          unfolding framed_def using d by (simp add: linesR_def sameSettings_def)
        moreover have "okLine rw (Limit w) (last (linesR (?w0\<lparr>lineLen := 0, space := []\<rparr>)))"
          using curFit_ok [OF i(3)] by (simp add: linesR_def)
        ultimately show ?thesis
          using True by simp
      next
        case False
        let ?y = "?w0\<lparr>buf := buf w @ space w, space := []\<rparr>"
        have fit: "?L + ?S \<le> Limit w"
          using False by simp
        have b: "buf ?y = buf w @ space w" by simp
        note s = spaces_lines [OF i(1) nar i(3) i(2) fit b]
        have "framed rw v ?y"
          unfolding framed_def using d s(1,2,3) by (simp add: sameSettings_def)
        moreover have "okLine rw (Limit w) (last (linesR ?y))"
          using s(4) fit by (auto simp: okLine_def)
        ultimately show ?thesis
          using False by simp
      qed
      then show ?thesis
        by (rule conjE) (rule addNewLine_empty_lineInv [OF _ _ _ nlx], simp_all)
    next
      case False
      have "writeRune rw w c = andThen (addWord rw ?w0) addNewLine"
        using nl False by (simp add: wr)
      with step obtain x where x: "addWord rw ?w0 = Inr x" and nlx: "addNewLine x = Inr w'"
        by (auto simp: andThen_eq_Inr)
      note a = addWord_lineInv [OF inv0 nar x]
      note j = lineInvD [OF a(1)]
      show ?thesis
        using j(1) nar j(3) j(2) nlx by (rule addNewLine_lineInv)
    qed
  next
    case sp
    have "writeRune rw w c =
        andThen (addWord rw ?w0) (\<lambda>w. Inr (w\<lparr>space := space w @ encodeRune c\<rparr>))"
      using sp by (simp add: wr)
    with step obtain x where x: "addWord rw ?w0 = Inr x"
      and w': "w' = x\<lparr>space := space x @ encodeRune c\<rparr>"
      by (auto simp: andThen_eq_Inr)
    note a = addWord_lineInv [OF inv0 nar x]
    note j = lineInvD [OF a(1)]
    note e = framedD [OF j(1)]
    have r: "runes (space x @ encodeRune c) = runes (space x) @ [c]"
      using e(6) c(1) by (rule runes_snoc)
    have "framed rw v w'"
      unfolding framed_def w'
      using e sp c(1)
      by (simp add: r linesR_def) (simp add: sameSettings_def utf8_append utf8_encodeRune)
    moreover have "curFit rw w'" "0 \<le> lineLen w'"
      using j(2,3) by (simp_all add: w' curFit_def linesR_def)
    moreover have "wordFit rw w'"
      using a(2) by (simp add: w' wordFit_def)
    ultimately show ?thesis
      by (simp add: lineInv_def)
  next
    case wd
    let ?w1 = "?w0\<lparr>word := word w @ encodeRune c\<rparr>"
    note ws = word_snoc [OF fr0 c(1,2) wd(2)]
    have fr1: "framed rw v ?w1"
      using ws(1) by simp
    have cur1: "curFit rw ?w1" and pos1: "0 \<le> lineLen ?w1"
      using i(2,3) by (simp_all add: curFit_def linesR_def)
    have pw1: "PrintableRuneWidth rw (word ?w1) = ?W + int (rw c)"
      using ws(2) by simp
    have pw0: "PrintableRuneWidth rw (word w) = ?W"
      using ws(4) by simp
    define hw where "hw \<longleftrightarrow> HardWrap w \<and> ?L + ?W + int (rw c) + ?S = Limit w"
    define brk where "brk \<longleftrightarrow> ?L + ?S + (?W + int (rw c)) > Limit w \<and> ?W + int (rw c) < Limit w"
    have wr': "writeRune rw w c =
        (if hw then addWord rw ?w1 else if brk then addNewLine ?w1 else Inr ?w1)"
      using wd pw0 pw1 by (simp add: wr Let_def hw_def brk_def)
    have r1: "runes (word ?w1) = runes (word w) @ [c]"
      using ws(3) by simp
    have fitI: "wordFit rw ?w1"
      if "?L + ?S + (?W + int (rw c)) \<le> Limit w \<or> Limit w \<le> ?W + int (rw c)"
      using that unfolding wordFit_def r1 by simp
    show ?thesis
    proof (cases hw)
      case True
      then have "wordFit rw ?w1"
        by (intro fitI) (simp add: hw_def)
      with fr1 pos1 cur1 have "lineInv rw v ?w1"
        by (simp add: lineInv_def)
      moreover have "addWord rw ?w1 = Inr w'"
        using wr' step True by simp
      ultimately show ?thesis
        using nar by (intro addWord_lineInv(1) [of rw v ?w1 w'])
    next
      case False
      note nhw = this
      show ?thesis
      proof (cases brk)
        case True
        then have "addNewLine ?w1 = Inr w'"
          using wr' step nhw by simp
        with fr1 nar cur1 pos1 show ?thesis
          by (rule addNewLine_lineInv)
      next
        case False
        then have "wordFit rw ?w1"
          by (intro fitI) (auto simp: brk_def)
        moreover have "w' = ?w1"
          using wr' step nhw False by simp
        ultimately show ?thesis
          using fr1 pos1 cur1 by (simp add: lineInv_def)
      qed
    qed
  qed
qed

lemma lineInv_settings: "lineInv rw v w \<Longrightarrow> sameSettings v w"
  by (simp add: lineInv_def framed_def)

lemma writeRunes_lineInv:
  assumes "lineInv rw v w" and "spacesNarrow rw"
    and "\<forall>c\<in>set cs. validRune c \<and> c \<noteq> 0x1B \<and> \<not> inGroup (Breakpoints v) c"
    and "writeRunes rw w cs = Inr w'"
  shows "lineInv rw v w'"
  using assms
proof (induction cs arbitrary: w)
  case Nil
  then show ?case by simp
next
  case (Cons c cs)
  from Cons.prems(4) obtain x where x: "writeRune rw w c = Inr x"
    and r: "writeRunes rw x cs = Inr w'"
    by (auto simp: andThen_eq_Inr)
  have bp: "Breakpoints w = Breakpoints v"
    using lineInv_settings [OF Cons.prems(1)] by (simp add: sameSettings_def)
  have "lineInv rw v x"
    using Cons.prems(1,2) _ _ _ x by (rule writeRune_lineInv) (use Cons.prems(3) bp in auto)
  then show ?case
    using Cons.prems(2) _ r by (rule Cons.IH) (use Cons.prems(3) in auto)
qed

lemma Write_looped: "Limit w \<noteq> 0 \<Longrightarrow> Write rw w b = writeRunes rw w (looped w b)"
  by (simp add: Write_def looped_def Let_def)

lemma looped_same: "sameSettings v w \<Longrightarrow> looped w b = looped v b"
  by (simp add: looped_def sameSettings_def)

lemma looped_valid: "c \<in> set (looped w b) \<Longrightarrow> validRune c"
proof -
  assume c: "c \<in> set (looped w b)"
  obtain s where "looped w b = runes s"
    by (simp add: looped_def Let_def)
  with c show ?thesis
    using runes_valid [of s] by (simp add: list_all_iff)
qed

lemma writeAll_lineInv:
  assumes "lineInv rw v w" and "spacesNarrow rw"
    and "\<forall>b\<in>set bs. \<forall>c\<in>set (looped v b). c \<noteq> 0x1B \<and> \<not> inGroup (Breakpoints v) c"
    and "writeAll rw w bs = Inr w'"
  shows "lineInv rw v w'"
  using assms
proof (induction bs arbitrary: w)
  case Nil
  then show ?case by simp
next
  case (Cons b bs)
  from Cons.prems(4) obtain x where x: "Write rw w b = Inr x"
    and r: "writeAll rw x bs = Inr w'"
    by (auto simp: andThen_eq_Inr)
  have ss: "sameSettings v w"
    using Cons.prems(1) by (rule lineInv_settings)
  have "0 < Limit w"
    using Cons.prems(1) by (simp add: lineInv_def framed_def)
  then have wr: "writeRunes rw w (looped v b) = Inr x"
    using x looped_same [OF ss] by (simp add: Write_looped)
  have "\<forall>c\<in>set (looped v b). validRune c \<and> c \<noteq> 0x1B \<and> \<not> inGroup (Breakpoints v) c"
    using Cons.prems(3) looped_valid [of _ v b] by auto
  with Cons.prems(1,2) have "lineInv rw v x"
    using wr by (rule writeRunes_lineInv)
  then show ?case
    using Cons.prems(2) _ r by (rule Cons.IH) (use Cons.prems(3) in auto)
qed

lemma lineInv_unused: "unused w \<Longrightarrow> 0 < Limit w \<Longrightarrow> lineInv rw w w"
  by (simp add: lineInv_def framed_def curFit_def wordFit_def unused_def sameSettings_def
      linesR_def)

text \<open>The lines of the output after \<^verbatim>\<open>Close\<close>.\<close>

lemma Close_lines:
  assumes inv: "lineInv rw v w" and nar: "spacesNarrow rw" and cl: "Close rw w = Inr w'"
  shows "utf8 (buf w')" "0x1B \<notin> set (runes (buf w'))"
    "list_all (okLine rw (Limit v)) (linesR w')"
proof -
  note i = lineInvD [OF inv]
  note d = framedD [OF i(1)]
  have lim: "Limit w = Limit v"
    using d(1) by (simp add: sameSettings_def)
  have all: "list_all P (linesR y)"
    if "list_all P (butlast (linesR y))" "P (last (linesR y))" for P y
  proof -
    have "linesR y \<noteq> []" by (simp add: linesR_def)
    then have "linesR y = butlast (linesR y) @ [last (linesR y)]" by simp
    then have "list_all P (linesR y) = list_all P (butlast (linesR y) @ [last (linesR y)])"
      by simp
    with that show ?thesis by simp
  qed
  have fin: "utf8 (buf y) \<and> 0x1B \<notin> set (runes (buf y))
      \<and> list_all (okLine rw (Limit w)) (linesR y)" if "lineInv rw v y" for y
  proof -
    note j = lineInvD [OF that]
    note e = framedD [OF j(1)]
    have "Limit y = Limit w"
      using e(1) d(1) by (simp add: sameSettings_def)
    with e(5,8,11) curFit_ok [OF j(3)] show ?thesis
      by (simp add: all)
  qed
  have concl: "utf8 (buf w') \<and> 0x1B \<notin> set (runes (buf w'))
      \<and> list_all (okLine rw (Limit w)) (linesR w')"
  proof (cases "PreserveSpaces w")
    case False
    with cl have "addWord rw w = Inr w'" by (simp add: Close_def)
    with inv nar have "lineInv rw v w'" by (rule addWord_lineInv(1))
    then show ?thesis by (rule fin)
  next
    case True
    with cl obtain x where as: "addSpace w = Inr x" and aw: "addWord rw x = Inr w'"
      by (auto simp: Close_def andThen_eq_Inr)
    note s = addSpace_lines [OF i(1) nar i(3) i(2) as]
    note f = addSpace_frame [OF as]
    show ?thesis
    proof (cases "word w = []")
      case True
      with aw have "w' = x" by (simp add: addWord_def f)
      with s(1,2,3,4) show ?thesis by (simp add: all)
    next
      case False
      let ?wd = "runes (word w)"
      let ?L = "lineLen w" and ?S = "int (length (space w))" and ?W = "int (width rw ?wd)"
      from aw False obtain y where ay: "addSpace x = Inr y"
        and w': "w' = y\<lparr>lineLen := lineLen y + PrintableRuneWidth rw (word y),
            buf := buf y @ word y, word := []\<rparr>"
        by (auto simp: addWord_def andThen_eq_Inr f)
      note n = addSpace_nothing [OF f(14) ay]
      note g = addSpace_frame [OF ay]
      have b: "buf w' = buf x @ word w"
        by (simp add: w' n g f)
      have nl_wd: "0x0A \<notin> set ?wd" and esc_wd: "0x1B \<notin> set ?wd"
        and nsp_wd: "\<forall>c\<in>set ?wd. \<not> IsSpace c"
        using d(10) by auto
      have r: "runes (buf w') = runes (buf x) @ ?wd"
        using s(1) by (simp add: b runes_append)
      have lr: "butlast (linesR w') = butlast (linesR x)"
        "last (linesR w') = last (linesR x) @ ?wd"
        unfolding linesR_def r using nl_wd
        by (simp_all add: butlast_split_plain last_split_plain)
      have fit: "?L + ?S + ?W \<le> Limit w \<or> Limit w \<le> ?W"
        using i(4) False by (simp add: wordFit_def)
      have "okLine rw (Limit w) (last (linesR x) @ ?wd)"
      proof (cases "Limit w \<le> ?W")
        case True
        then show ?thesis
          using maxWord_suffix_word [OF nsp_wd, of rw 0 "last (linesR x)"]
          by (simp add: okLine_def)
      next
        case False
        with fit have le: "?L + ?S + ?W \<le> Limit w" by simp
        then have "?S \<le> Limit w - ?L" by simp
        from s(7) [OF this] have lx: "lineLen x = ?L + ?S"
          and a: "int (width rw (last (linesR x))) \<le> lineLen x
            \<or> Limit w \<le> int (maxWord rw 0 (last (linesR x)))"
          by auto
        from a show ?thesis
        proof
          assume "int (width rw (last (linesR x))) \<le> lineLen x"
          with le lx show ?thesis by (simp add: okLine_def)
        next
          assume "Limit w \<le> int (maxWord rw 0 (last (linesR x)))"
          then show ?thesis
            using maxWord_append_ge [of rw 0 "last (linesR x)" ?wd]
            by (simp add: okLine_def)
        qed
      qed
      then have "list_all (okLine rw (Limit w)) (linesR w')"
        using s(3) by (intro all) (simp_all add: lr)
      moreover have "utf8 (buf w')"
        using s(1) d(7) by (simp add: b utf8_append)
      moreover have "0x1B \<notin> set (runes (buf w'))"
        using s(2) esc_wd by (simp add: r)
      ultimately show ?thesis by simp
    qed
  qed
  from concl lim show "utf8 (buf w')" "0x1B \<notin> set (runes (buf w'))"
    "list_all (okLine rw (Limit v)) (linesR w')"
    by simp_all
qed

lemma session_lines:
  assumes un: "unused w" and lim: "0 < Limit w" and nar: "spacesNarrow rw"
    and pl: "\<forall>b\<in>set bs. \<forall>c\<in>set (looped w b). c \<noteq> 0x1B \<and> \<not> inGroup (Breakpoints w) c"
    and out: "result rw w bs = Inr out"
  shows "list_all (lineWithin rw (Limit w)) (splitLines out)"
proof -
  from out obtain w1 w2 where w1: "writeAll rw w bs = Inr w1"
    and w2: "Close rw w1 = Inr w2" and o: "out = buf w2"
    by (auto simp: result_def andThen_eq_Inr)
  have "lineInv rw w w1"
    using lineInv_unused [OF un lim] nar pl w1 by (rule writeAll_lineInv)
  note c = Close_lines [OF this nar w2]
  have v: "\<forall>l\<in>set (linesR w2). list_all validRune l \<and> 0x1B \<notin> set l"
  proof
    fix l assume "l \<in> set (linesR w2)"
    then have "set l \<subseteq> set (runes (buf w2))"
      using set_splitFrom [of l "0x0A" "[]" "runes (buf w2)"] by (simp add: linesR_def)
    then show "list_all validRune l \<and> 0x1B \<notin> set l"
      using runes_valid [of "buf w2"] c(2) by (auto simp: list_all_iff)
  qed
  have "splitLines out = map enc (linesR w2)"
    using c(1) by (simp add: o splitLines_utf8 linesR_def)
  then show ?thesis
    using c(3) v by (simp add: list_all_iff lineWithin_enc)
qed

text \<open>\<^verbatim>\<open>Bytes\<close> and \<^verbatim>\<open>String\<close> are the session of one \<^verbatim>\<open>Write\<close> on a writer from \<^verbatim>\<open>NewWriter\<close>.\<close>

lemma unused_NewWriter: "unused (NewWriter limit)"
  by (simp add: unused_def)

lemma Bytes_result: "Bytes rw b limit = result rw (NewWriter limit) [b]"
  by (cases "Write rw (NewWriter limit) b") (simp_all add: Bytes_def result_def)

section \<open>Sessions that do not panic\<close>

lemma calmD:
  assumes "calm v w"
  shows "sameSettings v w" "0 < Limit w" "\<not> PreserveSpaces w" "\<not> ansi w" "lastAnsi w = []"
    "word w \<noteq> [] \<Longrightarrow> lineLen w \<le> Limit w"
  using assms by (simp_all add: calm_def)

lemma calm_wroteBegin [simp]: "calm v (w\<lparr>wroteBegin := b\<rparr>) = calm v w"
  by (simp add: calm_def sameSettings_def)

lemma addSpace_returns:
  assumes "0 < Limit w" and "lineLen w \<le> Limit w \<or> int (length (space w)) \<le> Limit w - lineLen w"
  shows "\<exists>x. addSpace w = Inr x"
proof (cases "int (length (space w)) \<le> Limit w - lineLen w")
  case True
  then show ?thesis by (simp add: addSpace_fits)
next
  case False
  with assms show ?thesis
    using addSpace_overflow [of w] by simp
qed

lemma addWord_calm:
  assumes c: "calm v w"
  shows "\<exists>w'. addWord rw w = Inr w' \<and> calm v w' \<and> word w' = []"
proof (cases "word w = []")
  case True
  with c show ?thesis by (simp add: addWord_def)
next
  case False
  note d = calmD [OF c]
  obtain x where x: "addSpace w = Inr x"
    using addSpace_returns [of w] d(2) d(6) [OF False] by blast
  let ?w' = "x\<lparr>lineLen := lineLen x + PrintableRuneWidth rw (word x), buf := buf x @ word x,
      word := []\<rparr>"
  have aw: "addWord rw w = Inr ?w'"
    using False x by (simp add: addWord_def)
  note f = addSpace_frame [OF x]
  have "calm v ?w'"
    using d(1,2,3,4,5) by (simp add: calm_def sameSettings_def f)
  with aw show ?thesis by simp
qed

lemma addNewLine_calm:
  assumes c: "calm v w"
  shows "\<exists>w'. addNewLine w = Inr w' \<and> calm v w' \<and> word w' = word w"
proof -
  note d = calmD [OF c]
  let ?w' = "w\<lparr>buf := buf w @ [CHR 0x0A], lineLen := 0, space := [], wroteBegin := False\<rparr>"
  have "addNewLine w = Inr ?w'"
    using d(3,5) by (simp add: addNewLine_def)
  moreover have "calm v ?w'"
    using d(1,2,3,4,5) by (simp add: calm_def sameSettings_def)
  ultimately show ?thesis by simp
qed

lemma PrintableRuneWidth_nonneg: "0 \<le> PrintableRuneWidth rw s"
  by (simp add: PrintableRuneWidth_def)

lemma PrintableRuneWidth_rune:
  "validRune c \<Longrightarrow> c \<noteq> 0x1B \<Longrightarrow> PrintableRuneWidth rw (encodeRune c) = int (rw c)"
  by (simp add: PrintableRuneWidth_def runes_encodeRune1)

lemma writeRune_calm:
  assumes cm: "calm v w" and thin: "\<forall>c. int (rw c) < Limit v"
    and c: "validRune c" "c \<noteq> 0x1B" "\<not> inGroup (Breakpoints w) c"
  shows "\<exists>w'. writeRune rw w c = Inr w' \<and> calm v w'"
proof -
  note d = calmD [OF cm]
  have lim: "Limit w = Limit v"
    using d(1) by (simp add: sameSettings_def)
  let ?w0 = "w\<lparr>wroteBegin := True\<rparr>"
  have c0: "calm v ?w0"
    using cm by simp
  note wr = writeRune_unstyled [of w c rw, OF d(4,5) c(2,3)]
  consider (nl) "inGroup (Newline w) c"
    | (sp) "\<not> inGroup (Newline w) c" "IsSpace c"
    | (wd) "\<not> inGroup (Newline w) c" "\<not> IsSpace c"
    by auto
  then show ?thesis
  proof cases
    case nl
    let ?x = "(if length (word w) = 0 then
        (if lineLen w + int (length (space w)) > Limit w then ?w0\<lparr>lineLen := 0\<rparr>
         else ?w0\<lparr>buf := buf w @ space w\<rparr>)\<lparr>space := []\<rparr>
      else ?w0)"
    have "calm v ?x"
      using d by (simp add: calm_def sameSettings_def)
    then obtain y where y: "addWord rw ?x = Inr y" "calm v y"
      using addWord_calm by blast
    obtain w' where "addNewLine y = Inr w'" "calm v w'"
      using addNewLine_calm [OF y(2)] by blast
    moreover have "writeRune rw w c = andThen (addWord rw ?x) addNewLine"
      using nl by (simp add: wr)
    ultimately show ?thesis
      using y(1) by simp
  next
    case sp
    obtain y where y: "addWord rw ?w0 = Inr y" "calm v y" "word y = []"
      using addWord_calm [OF c0] by blast
    have "writeRune rw w c = Inr (y\<lparr>space := space y @ encodeRune c\<rparr>)"
      using sp y(1) by (simp add: wr)
    moreover have "calm v (y\<lparr>space := space y @ encodeRune c\<rparr>)"
      using y(2,3) by (auto simp: calm_def sameSettings_def)
    ultimately show ?thesis by simp
  next
    case wd
    let ?w1 = "?w0\<lparr>word := word w @ encodeRune c\<rparr>"
    let ?P = "PrintableRuneWidth rw (word w @ encodeRune c)"
    define hw where "hw \<longleftrightarrow> HardWrap w \<and>
        lineLen w + PrintableRuneWidth rw (word w) + int (rw c) + int (length (space w)) = Limit w"
    define brk where "brk \<longleftrightarrow> lineLen w + int (length (space w)) + ?P > Limit w \<and> ?P < Limit w"
    have wr': "writeRune rw w c =
        (if hw then addWord rw ?w1 else if brk then addNewLine ?w1 else Inr ?w1)"
      using wd by (simp add: wr Let_def hw_def brk_def)
    have c1: "calm v ?w1" if "lineLen w \<le> Limit w"
      using d that by (simp add: calm_def sameSettings_def)
    have c1': "calm v (?w1\<lparr>word := []\<rparr>)"
      using d by (simp add: calm_def sameSettings_def)
    show ?thesis
    proof (cases hw)
      case True
      then have "lineLen w \<le> Limit w"
        using PrintableRuneWidth_nonneg [of rw "word w"] by (simp add: hw_def)
      from addWord_calm [OF c1 [OF this]] show ?thesis
        using wr' True by auto
    next
      case False
      note nhw = this
      show ?thesis
      proof (cases brk)
        case True
        let ?w' = "?w1\<lparr>buf := buf w @ [CHR 0x0A], lineLen := 0, space := [],
            wroteBegin := False\<rparr>"
        have "addNewLine ?w1 = Inr ?w'"
          using d(3,5) by (simp add: addNewLine_def)
        moreover have "calm v ?w'"
          using d by (simp add: calm_def sameSettings_def)
        ultimately show ?thesis
          using wr' nhw True by simp
      next
        case False
        have "lineLen w \<le> Limit w"
        proof (cases "word w = []")
          case True
          then have "?P = int (rw c)"
            using c(1,2) by (simp add: PrintableRuneWidth_rune)
          with thin lim have "?P < Limit w" by simp
          with False have "lineLen w + int (length (space w)) + ?P \<le> Limit w"
            by (simp add: brk_def)
          then show ?thesis
            using PrintableRuneWidth_nonneg [of rw "word w @ encodeRune c"] by linarith
        next
          case False
          then show ?thesis by (rule d(6))
        qed
        then have "calm v ?w1" by (rule c1)
        then show ?thesis
          using wr' nhw False by simp
      qed
    qed
  qed
qed

lemma writeRunes_calm:
  assumes "calm v w" and "\<forall>c. int (rw c) < Limit v"
    and "\<forall>c\<in>set cs. validRune c \<and> c \<noteq> 0x1B \<and> \<not> inGroup (Breakpoints v) c"
  shows "\<exists>w'. writeRunes rw w cs = Inr w' \<and> calm v w'"
  using assms
proof (induction cs arbitrary: w)
  case Nil
  then show ?case by simp
next
  case (Cons c cs)
  have bp: "Breakpoints w = Breakpoints v"
    using calmD(1) [OF Cons.prems(1)] by (simp add: sameSettings_def)
  obtain x where x: "writeRune rw w c = Inr x" "calm v x"
    using writeRune_calm [OF Cons.prems(1,2), of c] Cons.prems(3) bp by auto
  obtain w' where "writeRunes rw x cs = Inr w'" "calm v w'"
    using Cons.IH [OF x(2) Cons.prems(2)] Cons.prems(3) by auto
  with x(1) show ?case by simp
qed

lemma writeAll_calm:
  assumes "calm v w" and "\<forall>c. int (rw c) < Limit v"
    and "\<forall>b\<in>set bs. \<forall>c\<in>set (looped v b). c \<noteq> 0x1B \<and> \<not> inGroup (Breakpoints v) c"
  shows "\<exists>w'. writeAll rw w bs = Inr w' \<and> calm v w'"
  using assms
proof (induction bs arbitrary: w)
  case Nil
  then show ?case by simp
next
  case (Cons b bs)
  note d = calmD [OF Cons.prems(1)]
  have "\<forall>c\<in>set (looped v b). validRune c \<and> c \<noteq> 0x1B \<and> \<not> inGroup (Breakpoints v) c"
    using Cons.prems(3) looped_valid [of _ v b] by auto
  then obtain x where x: "writeRunes rw w (looped v b) = Inr x" "calm v x"
    using writeRunes_calm [OF Cons.prems(1,2)] by blast
  have wx: "Write rw w b = Inr x"
    using x(1) d(2) looped_same [OF d(1)] by (simp add: Write_looped)
  obtain w' where "writeAll rw x bs = Inr w'" "calm v w'"
    using Cons.IH [OF x(2) Cons.prems(2)] Cons.prems(3) by auto
  with wx show ?case by simp
qed

lemma session_returns:
  assumes un: "unused w" and lim: "0 < Limit w" and np: "\<not> PreserveSpaces w"
    and thin: "\<forall>c. int (rw c) < Limit w"
    and pl: "\<forall>b\<in>set bs. \<forall>c\<in>set (looped w b). c \<noteq> 0x1B \<and> \<not> inGroup (Breakpoints w) c"
  shows "\<exists>out. result rw w bs = Inr out"
proof -
  have "calm w w"
    using un lim np by (simp add: calm_def unused_def sameSettings_def)
  then obtain w1 where w1: "writeAll rw w bs = Inr w1" "calm w w1"
    using writeAll_calm thin pl by blast
  obtain w2 where "addWord rw w1 = Inr w2"
    using addWord_calm [OF w1(2)] by blast
  then have "Close rw w1 = Inr w2"
    using calmD(3) [OF w1(2)] by (simp add: Close_def)
  with w1(1) show ?thesis
    by (simp add: result_def)
qed

section \<open>The width of the output lines\<close>

text \<open>
  C1, as the specification states it, fails, in three ways. At limit 3 the input of a
  space and the word \<^verbatim>\<open>bbb\<close> comes out unchanged, one line four columns wide that is not
  a single word: the word is as wide as the limit, and the default branch of \<^verbatim>\<open>Write\<close>
  breaks the line only before a word narrower than the limit. At limit 5 the input
  \<^verbatim>\<open>aaaaa\<close>, five spaces, the style sequence \<^verbatim>\<open>ESC[1m\<close>, a space and \<^verbatim>\<open>b\<close> gets a second
  line of five spaces, the sequence, a space and \<^verbatim>\<open>b\<close>, seven columns wide with no word
  of five columns: \<^verbatim>\<open>addSpace\<close> leaves \<^verbatim>\<open>lineLen\<close> at 0 behind a full line of spaces, and
  the sequence is a word of no width, flushed without a line break, behind which the
  line goes on. At limit 5 the input \<^verbatim>\<open>a-b cc\<close> comes out unchanged, six columns wide:
  the breakpoint branch does not count the character (C3).
\<close>

theorem line_width_counterexample:
  "Bytes cellWidth '' bbb'' 3 = Inr '' bbb''
   \<and> \<not> list_all (lineFits cellWidth [0x2D] 3) (splitLines '' bbb'')
   \<and> Bytes cellWidth (''aaaaa     '' @ CHR 0x1B # ''[1m b'') 5
       = Inr (''aaaaa'' @ CHR 0x0A # ''     '' @ CHR 0x1B # ''[1m b'')
   \<and> \<not> list_all (lineFits cellWidth [0x2D] 5)
         (splitLines (''aaaaa'' @ CHR 0x0A # ''     '' @ CHR 0x1B # ''[1m b''))
   \<and> \<not> list_all (lineWithin cellWidth 5)
         (splitLines (''aaaaa'' @ CHR 0x0A # ''     '' @ CHR 0x1B # ''[1m b''))
   \<and> Bytes cellWidth ''a-b cc'' 5 = Inr ''a-b cc''
   \<and> \<not> list_all (lineFits cellWidth [0x2D] 5) (splitLines ''a-b cc'')
   \<and> \<not> list_all (lineWithin cellWidth 5) (splitLines ''a-b cc'')"
proof (intro conjI)
  show "Bytes cellWidth '' bbb'' 3 = Inr '' bbb''"
    by code_simp
  show "\<not> list_all (lineFits cellWidth [0x2D] 3) (splitLines '' bbb'')"
    by code_simp
  show "Bytes cellWidth (''aaaaa     '' @ CHR 0x1B # ''[1m b'') 5
       = Inr (''aaaaa'' @ CHR 0x0A # ''     '' @ CHR 0x1B # ''[1m b'')"
    by code_simp
  show "\<not> list_all (lineFits cellWidth [0x2D] 5)
         (splitLines (''aaaaa'' @ CHR 0x0A # ''     '' @ CHR 0x1B # ''[1m b''))"
    by code_simp
  show "\<not> list_all (lineWithin cellWidth 5)
         (splitLines (''aaaaa'' @ CHR 0x0A # ''     '' @ CHR 0x1B # ''[1m b''))"
    by code_simp
  show "Bytes cellWidth ''a-b cc'' 5 = Inr ''a-b cc''"
    by code_simp
  show "\<not> list_all (lineFits cellWidth [0x2D] 5) (splitLines ''a-b cc'')"
    by code_simp
  show "\<not> list_all (lineWithin cellWidth 5) (splitLines ''a-b cc'')"
    by code_simp
qed

text \<open>
  C1, amended. For every setting of the options with a limit above zero, and every
  sequence of \<^verbatim>\<open>Write\<close> calls on a new writer in which the loop of \<^verbatim>\<open>Write\<close> meets no
  escape introducer and no breakpoint character of the settings, every line of the
  output after \<^verbatim>\<open>Close\<close> is at most \<open>Limit\<close> columns wide or holds a word of at least
  \<open>Limit\<close> columns (for a width function that takes no white-space rune for wider than
  its encoding is long). With \<^verbatim>\<open>PreserveSpaces\<close> off and every rune narrower than the
  limit, there is an output.
\<close>

theorem lines_within_limit:
  assumes "unused w" and "0 < Limit w" and "spacesNarrow rw"
    and "\<forall>b\<in>set bs. \<forall>c\<in>set (looped w b). c \<noteq> 0x1B \<and> \<not> inGroup (Breakpoints w) c"
  shows "(\<forall>out. result rw w bs = Inr out \<longrightarrow>
            list_all (lineWithin rw (Limit w)) (splitLines out))
    \<and> (\<not> PreserveSpaces w \<and> (\<forall>c. int (rw c) < Limit w) \<longrightarrow>
          (\<exists>out. result rw w bs = Inr out))"
proof (intro conjI allI impI)
  fix out assume "result rw w bs = Inr out"
  with assms show "list_all (lineWithin rw (Limit w)) (splitLines out)"
    by (rule session_lines)
next
  assume "\<not> PreserveSpaces w \<and> (\<forall>c. int (rw c) < Limit w)"
  then show "\<exists>out. result rw w bs = Inr out"
    using assms(1,2,4) by (intro session_returns) simp_all
qed

theorem lines_within_limit_witness:
  "result cellWidth
     ((NewWriter 5)\<lparr>KeepNewlines := False, HardWrap := True, TabReplace := ''  ''\<rparr>)
     ['' a bb'' @ CHR 0x09 # ''c '', ''dd dddddd e'' @ CHR 0x0A # ''ff  '']
     = Inr (''a bb'' @ CHR 0x0A # ''cdd d'' @ CHR 0x0A # ''ddddd'' @ CHR 0x0A # ''e ff'')
   \<and> list_all (lineWithin cellWidth 5)
        (splitLines (''a bb'' @ CHR 0x0A # ''cdd d'' @ CHR 0x0A # ''ddddd'' @ CHR 0x0A # ''e ff''))"
proof -
  let ?w = "(NewWriter 5)\<lparr>KeepNewlines := False, HardWrap := True, TabReplace := ''  ''\<rparr>"
  let ?bs = "['' a bb'' @ CHR 0x09 # ''c '', ''dd dddddd e'' @ CHR 0x0A # ''ff  '']"
  let ?out = "''a bb'' @ CHR 0x0A # ''cdd d'' @ CHR 0x0A # ''ddddd'' @ CHR 0x0A # ''e ff''"
  have b: "result cellWidth ?w ?bs = Inr ?out"
    by code_simp
  have u: "unused ?w" "0 < Limit ?w"
    by (simp_all add: unused_def)
  have p: "\<forall>b\<in>set ?bs. \<forall>c\<in>set (looped ?w b). c \<noteq> 0x1B \<and> \<not> inGroup (Breakpoints ?w) c"
    by code_simp
  have l: "Limit ?w = 5"
    by simp
  have "list_all (lineWithin cellWidth (Limit ?w)) (splitLines ?out)"
    using lines_within_limit [of ?w cellWidth ?bs, OF u cellWidth_narrow p] b by blast
  then have "list_all (lineWithin cellWidth 5) (splitLines ?out)"
    by (simp only: l)
  with b show ?thesis
    by (rule conjI)
qed


end
